theory Spec2Isabelle
  imports Complex_Main "HOL-Library.Sublist"
begin

section \<open>PriorityPool.ts: the two-level concurrency pool\<close>

text \<open>
  The class has the fields \<open>limit\<close>, \<open>running\<close>, \<open>small\<close>, \<open>large\<close> and \<open>pumping\<close>.
  A task is an opaque asynchronous function \<open>() => Promise<void>\<close>; the pool only calls it
  and attaches a \<open>finally\<close> callback to the promise it returns. The model keeps a task as a
  value of an arbitrary type and records the two effects of \<open>t().finally(...)\<close>:
  \<open>started\<close> is the order in which tasks were called, \<open>inflight\<close> holds the tasks whose promise
  is still pending (the callback of each fires once, later, as the event \<open>complete\<close>).
  A task is an async function: calling it returns a promise and does not throw, and its
  synchronous prefix does not call back into the pool.
\<close>

record 'a PriorityPool =
  limit :: int
  running :: int
  small :: "'a list"
  large :: "'a list"
  pumping :: bool
  started :: "'a list"
  inflight :: "'a list"

text \<open>\<open>constructor(limit) { this.limit = Math.max(1, limit); }\<close>\<close>

definition new_pool :: "int \<Rightarrow> 'a PriorityPool" where
  "new_pool n = \<lparr> limit = max 1 n, running = 0, small = [], large = [], pumping = False,
                  started = [], inflight = [] \<rparr>"

text \<open>\<open>next(): return this.small.shift() || this.large.shift();\<close>\<close>

definition next_task :: "'a PriorityPool \<Rightarrow> 'a option \<times> 'a PriorityPool" where
  "next_task p =
     (case small p of
        t # ts \<Rightarrow> (Some t, p\<lparr>small := ts\<rparr>)
      | [] \<Rightarrow> (case large p of
                 t # ts \<Rightarrow> (Some t, p\<lparr>large := ts\<rparr>)
               | [] \<Rightarrow> (None, p)))"

text \<open>The \<open>while (this.running < this.limit)\<close> loop of \<open>pump\<close>.\<close>

function pump_loop :: "'a PriorityPool \<Rightarrow> 'a PriorityPool" where
  "pump_loop p =
     (if running p < limit p then
        (case next_task p of
           (None, p') \<Rightarrow> p'
         | (Some t, p') \<Rightarrow>
             pump_loop (p'\<lparr>running := running p' + 1,
                           started := started p' @ [t],
                           inflight := inflight p' @ [t]\<rparr>))
      else p)"
  by pat_completeness auto
termination
  by (relation "measure (\<lambda>p. length (small p) + length (large p))")
     (auto simp: next_task_def split: list.splits)

declare pump_loop.simps [simp del]

definition pump :: "'a PriorityPool \<Rightarrow> 'a PriorityPool" where
  "pump p = (if pumping p then p else (pump_loop (p\<lparr>pumping := True\<rparr>))\<lparr>pumping := False\<rparr>)"

definition setLimit :: "int \<Rightarrow> 'a PriorityPool \<Rightarrow> 'a PriorityPool" where
  "setLimit n p = pump (p\<lparr>limit := max 1 n\<rparr>)"

definition push :: "'a \<Rightarrow> bool \<Rightarrow> 'a PriorityPool \<Rightarrow> 'a PriorityPool" where
  "push t sm p = pump (if sm then p\<lparr>small := small p @ [t]\<rparr> else p\<lparr>large := large p @ [t]\<rparr>)"

text \<open>
  The \<open>finally\<close> callback of a started task:
  \<open>this.running--; this.pumping = false; this.pump();\<close>
  It can fire only for a task whose promise is pending.
\<close>

definition complete :: "'a \<Rightarrow> 'a PriorityPool \<Rightarrow> 'a PriorityPool option" where
  "complete t p =
     (if t \<in> set (inflight p) then
        Some (pump (p\<lparr>running := running p - 1, pumping := False,
                       inflight := remove1 t (inflight p)\<rparr>))
      else None)"

text \<open>The test of \<open>idle()\<close>'s \<open>tick\<close>, and \<open>snapshot()\<close>.\<close>

definition idle :: "'a PriorityPool \<Rightarrow> bool" where
  "idle p \<longleftrightarrow> running p = 0 \<and> length (small p) = 0 \<and> length (large p) = 0"

record snapshot_t =
  s_running :: int
  s_smallQ :: nat
  s_largeQ :: nat
  s_limit :: int

definition snapshot :: "'a PriorityPool \<Rightarrow> snapshot_t" where
  "snapshot p = \<lparr> s_running = running p, s_smallQ = length (small p),
                  s_largeQ = length (large p), s_limit = limit p \<rparr>"

text \<open>A sequence of pool operations, each run to its end (a quiescent point) before the next.\<close>

datatype 'a pool_op = Push 'a bool | SetLimit int | Complete 'a

fun apply_op :: "'a pool_op \<Rightarrow> 'a PriorityPool \<Rightarrow> 'a PriorityPool option" where
  "apply_op (Push t sm) p = Some (push t sm p)"
| "apply_op (SetLimit n) p = Some (setLimit n p)"
| "apply_op (Complete t) p = complete t p"

fun run_ops :: "'a pool_op list \<Rightarrow> 'a PriorityPool \<Rightarrow> 'a PriorityPool option" where
  "run_ops [] p = Some p"
| "run_ops (x # xs) p = (case apply_op x p of None \<Rightarrow> None | Some p' \<Rightarrow> run_ops xs p')"

text \<open>The largest limit in force during a run that starts with limit \<open>l\<close>.\<close>

fun peak_limit :: "int \<Rightarrow> 'a pool_op list \<Rightarrow> int" where
  "peak_limit l [] = l"
| "peak_limit l (SetLimit n # xs) = max l (peak_limit (max 1 n) xs)"
| "peak_limit l (_ # xs) = peak_limit l xs"

text \<open>No \<open>setLimit\<close> of the run lowers the limit below the number of tasks then running.\<close>

fun never_undercut :: "'a pool_op list \<Rightarrow> 'a PriorityPool \<Rightarrow> bool" where
  "never_undercut [] p = True"
| "never_undercut (x # xs) p =
     ((case x of SetLimit n \<Rightarrow> running p \<le> max 1 n | _ \<Rightarrow> True) \<and>
      (case apply_op x p of None \<Rightarrow> True | Some p' \<Rightarrow> never_undercut xs p'))"

section \<open>Runner.ts: the small-file heuristic\<close>

text \<open>
  Strings are lists of 8-bit characters; the model covers ASCII URLs, on which
  \<open>toLowerCase\<close> maps \<open>A..Z\<close> to \<open>a..z\<close> and leaves every other character alone.
\<close>

definition lower_char :: "char \<Rightarrow> char" where
  "lower_char c =
     (if 65 \<le> (of_char c :: nat) \<and> (of_char c :: nat) \<le> 90
      then char_of (of_char c + 32 :: nat) else c)"

definition toLowerCase :: "string \<Rightarrow> string" where
  "toLowerCase s = map lower_char s"

text \<open>\<open>s.includes(pat)\<close>, here \<open>includes_str\<close>: \<open>pat\<close> occurs in \<open>s\<close> at some position.\<close>

fun includes_str :: "string \<Rightarrow> string \<Rightarrow> bool" where
  "includes_str [] pat = (pat = [])"
| "includes_str (c # cs) pat = (prefix pat (c # cs) \<or> includes_str cs pat)"

definition endsWith :: "string \<Rightarrow> string \<Rightarrow> bool" where
  "endsWith s pat = (length pat \<le> length s \<and> drop (length s - length pat) s = pat)"

text \<open>The regular expression's \<open>\d\<close> and \<open>Number(m[1])\<close> on a string of decimal digits.\<close>

definition isDigit :: "char \<Rightarrow> bool" where
  "isDigit c \<longleftrightarrow> 48 \<le> (of_char c :: nat) \<and> (of_char c :: nat) \<le> 57"

definition Number_digits :: "string \<Rightarrow> nat" where
  "Number_digits d = foldl (\<lambda>n c. 10 * n + ((of_char c :: nat) - 48)) 0 d"

text \<open>
  \<open>n.match(/img_(\d{3})\.jpg$/)\<close>: the pattern ends with \<open>$\<close>, so the only possible match is
  the last eleven characters; the result is the captured group \<open>m[1]\<close>.
\<close>

definition match_img :: "string \<Rightarrow> string option" where
  "match_img n =
     (if 11 \<le> length n then
        (let t = drop (length n - 11) n in
         if take 4 t = ''img_'' \<and> list_all isDigit (take 3 (drop 4 t)) \<and> drop 7 t = ''.jpg''
         then Some (take 3 (drop 4 t)) else None)
      else None)"

definition isSmallByName :: "string \<Rightarrow> bool" where
  "isSmallByName u =
     (let n = toLowerCase u in
      if includes_str n ''thumb'' \<or> includes_str n ''_s'' \<or> includes_str n ''_small'' \<or>
         endsWith n ''_128.jpg'' then True
      else (case match_img n of
              Some m1 \<Rightarrow> (let idx = Number_digits m1 in if idx \<le> 16 then True else False)
            | None \<Rightarrow> False))"

text \<open>\<open>u.split('/').pop()\<close>: the part of the URL after the last \<open>/\<close>, its basename.\<close>

definition basename :: "string \<Rightarrow> string" where
  "basename u = rev (takeWhile (\<lambda>c. c \<noteq> CHR ''/'') (rev u))"

text \<open>
  The rule as the specification words it, on the basename: it contains \<open>thumb\<close>, \<open>_s\<close> or
  \<open>_small\<close>, ends in \<open>_128.jpg\<close>, or is \<open>img_DDD.jpg\<close> with \<open>DDD \<le> 16\<close>.
\<close>

definition spec_small_basename :: "string \<Rightarrow> bool" where
  "spec_small_basename u =
     (let b = basename u in
      includes_str b ''thumb'' \<or> includes_str b ''_s'' \<or> includes_str b ''_small'' \<or>
      endsWith b ''_128.jpg'' \<or>
      (length b = 11 \<and> take 4 b = ''img_'' \<and> list_all isDigit (take 3 (drop 4 b)) \<and>
       drop 7 b = ''.jpg'' \<and> Number_digits (take 3 (drop 4 b)) \<le> 16))"

section \<open>WeakNetDetector.ts: the weak-link detector\<close>

text \<open>
  JavaScript numbers are modelled as reals (rounding of doubles is not modelled). A
  speed that is not finite (\<open>NaN\<close>, \<open>Infinity\<close>) is the input \<open>None\<close>.
\<close>

record WeakDecision =
  isWeak :: bool
  confidence :: real

record WeakParams =
  ewmaAlpha :: real
  cusumK :: real
  cusumH :: real
  gateRatio :: real
  fuseAlpha :: real
  fuseGamma :: real
  winSize :: real
  warmupMin :: real

record WeakNetDetector =
  ewma :: real
  hist :: "real list"
  failWin :: "real list"
  cfg :: WeakParams
  cusumPos :: real
  cusumNeg :: real

definition default_params :: WeakParams where
  "default_params = \<lparr> ewmaAlpha = 0.2, cusumK = 0.3, cusumH = 1.2, gateRatio = 0.5,
                        fuseAlpha = 0.7, fuseGamma = 0.3, winSize = 20, warmupMin = 10 \<rparr>"

text \<open>The constructor, for the parameters that result from \<open>{ defaults, ...params }\<close>.\<close>

definition new_detector :: "WeakParams \<Rightarrow> WeakNetDetector" where
  "new_detector params = \<lparr> ewma = 0, hist = [], failWin = [], cfg = params,
                            cusumPos = 0, cusumNeg = 0 \<rparr>"

definition clamp01 :: "real \<Rightarrow> real" where
  "clamp01 x = max 0 (min 1 x)"

definition safeDiv :: "real \<Rightarrow> real \<Rightarrow> real \<Rightarrow> real" where
  "safeDiv a b eps = a / (if \<bar>b\<bar> < eps then (if b \<ge> 0 then eps else - eps) else b)"

text \<open>\<open>baseline()\<close> reads \<open>this.hist\<close> only.\<close>

definition baseline :: "real list \<Rightarrow> real" where
  "baseline h =
     (let n = length h in
      if n = 0 then 0
      else (let sorted = sort h;
                k = max 1 (nat \<lfloor>real n * 0.25\<rfloor>);
                low = take k sorted;
                s = foldl (+) 0 low
            in s / real k))"

text \<open>
  \<open>feed\<close> assigns each field at most twice; the model binds the value a field gets at each
  assignment (\<open>ewma'\<close>, \<open>hist'\<close>, ...) and builds the detector's new state at the end.
\<close>

definition feed :: "WeakNetDetector \<Rightarrow> real option \<Rightarrow> bool \<Rightarrow> WeakDecision \<times> WeakNetDetector" where
  "feed d speedKBps ok =
     (let v = (case speedKBps of Some s \<Rightarrow> max 0 s | None \<Rightarrow> 0);
          ewma' = (if length (hist d) = 0 then v
                   else ewmaAlpha (cfg d) * v + (1 - ewmaAlpha (cfg d)) * ewma d);
          hist' = hist d @ [v];
          failWin1 = failWin d @ [if ok then 0 else 1];
          failWin' = (if real (length failWin1) > winSize (cfg d) then tl failWin1 else failWin1);
          failRate = (if length failWin' \<noteq> 0
                      then foldl (+) 0 failWin' / real (length failWin') else 0);
          baseRaw = baseline hist';
          base = (if baseRaw > 0 then baseRaw else (if v > 0 then v else 1 / 1000));
          x = safeDiv (v - base) (max (1 / 1000) base) (1 / 1000000);
          cusumPos' = max 0 (cusumPos d + (x - cusumK (cfg d)));
          cusumNeg' = min 0 (cusumNeg d + (x + cusumK (cfg d)));
          change = (cusumPos' > cusumH (cfg d) \<or> \<bar>cusumNeg'\<bar> > cusumH (cfg d));
          zSpeed = safeDiv (v - base) (max (1 / 1000) base) (1 / 1000000);
          score = fuseAlpha (cfg d) * (- zSpeed) + fuseGamma (cfg d) * failRate;
          weakByScore = (score > 0.5);
          gate = (ewma' < gateRatio (cfg d) * base);
          enough = (real (length hist') \<ge> max 3 (warmupMin (cfg d)));
          weak = (enough \<and> change \<and> weakByScore \<and> gate);
          confDrop = clamp01 (if base > 0 then (base - ewma') / base else 0);
          cusumMag = min 1 (max 0 (max cusumPos' \<bar>cusumNeg'\<bar> / (cusumH (cfg d) * 2)));
          conf = clamp01 (0.45 * confDrop + 0.35 * failRate + 0.20 * cusumMag)
      in (\<lparr> isWeak = weak, confidence = conf \<rparr>,
          \<lparr> ewma = ewma', hist = hist', failWin = failWin', cfg = cfg d,
            cusumPos = (if weak then cusumPos' * 0.25 else cusumPos'),
            cusumNeg = (if weak then cusumNeg' * 0.25 else cusumNeg') \<rparr>))"

text \<open>\<open>reset()\<close>\<close>

definition reset :: "WeakNetDetector \<Rightarrow> WeakNetDetector" where
  "reset d = d\<lparr>ewma := 0, hist := [], failWin := [], cusumPos := 0, cusumNeg := 0\<rparr>"

text \<open>A sequence of samples fed one after the other: the state afterwards, and the verdicts.\<close>

fun feed_state :: "WeakNetDetector \<Rightarrow> (real option \<times> bool) list \<Rightarrow> WeakNetDetector" where
  "feed_state d [] = d"
| "feed_state d ((s, ok) # xs) = feed_state (snd (feed d s ok)) xs"

fun feed_all :: "WeakNetDetector \<Rightarrow> (real option \<times> bool) list \<Rightarrow> WeakDecision list" where
  "feed_all d [] = []"
| "feed_all d ((s, ok) # xs) = fst (feed d s ok) # feed_all (snd (feed d s ok)) xs"

section \<open>HttpDownloader.ts and RangeDownloader.ts: the resumable transfer\<close>

text \<open>
  A file is a list of bytes, the file system a partial map from paths to files. The
  network is a parameter: what the server answers to \<open>HEAD\<close>, to a plain \<open>GET\<close> and to a
  \<open>GET\<close> with \<open>Range: bytes=start-\<close> for the URL of the transfer, together with the time the
  client measures for the request. A request that fails (the callback's \<open>err\<close>) and a file
  operation that throws reject the promise: the result \<open>Inl\<close>.
\<close>

type_synonym bytes = string
type_synonym filesystem = "string \<rightharpoonup> bytes"

datatype dl_error = NetError | FsError

text \<open>The fields of \<open>HeadInfo\<close> that \<open>downloadWithResume\<close> reads.\<close>

record HeadInfo =
  acceptRanges :: bool
  contentLength :: "nat option"

record RangeReply =
  status :: nat
  body :: bytes
  seconds :: real

record net =
  head_reply :: "HeadInfo option"
  whole_reply :: "dl_error + bytes \<times> real"
  range_reply :: "nat \<Rightarrow> dl_error + RangeReply"
  can_write :: "string \<Rightarrow> bool"

text \<open>\<open>fileSize\<close>: \<open>statSync\<close> throws for a missing file, the \<open>catch\<close> returns 0.\<close>

definition fileSize :: "filesystem \<Rightarrow> string \<Rightarrow> nat" where
  "fileSize fs path = (case fs path of Some b \<Rightarrow> length b | None \<Rightarrow> 0)"

definition content :: "filesystem \<Rightarrow> string \<Rightarrow> bytes" where
  "content fs path = (case fs path of Some b \<Rightarrow> b | None \<Rightarrow> [])"

text \<open>
  \<open>downloadWhole\<close> opens the file with \<open>CREATE | WRITE_ONLY\<close> (no \<open>TRUNC\<close>) and writes the body
  at offset 0: bytes of an older, longer file beyond the body stay.
\<close>

definition downloadWhole ::
  "net \<Rightarrow> string \<Rightarrow> filesystem \<Rightarrow> (dl_error + real \<times> nat) \<times> filesystem" where
  "downloadWhole nw dstPath fs =
     (case whole_reply nw of
        Inl e \<Rightarrow> (Inl e, fs)
      | Inr (arr, el) \<Rightarrow>
          if can_write nw dstPath
          then (Inr (el, length arr),
                fs(dstPath \<mapsto> arr @ drop (length arr) (content fs dstPath)))
          else (Inl FsError, fs))"

text \<open>
  \<open>downloadRangeAppend\<close> opens the file with \<open>CREATE | WRITE_ONLY | APPEND\<close> and writes the
  body of the response at the end, whatever the status.
\<close>

record RangeAppended =
  ra_elapsed :: real
  ra_size :: nat
  ra_status :: nat

definition downloadRangeAppend ::
  "net \<Rightarrow> string \<Rightarrow> nat \<Rightarrow> filesystem \<Rightarrow> (dl_error + RangeAppended) \<times> filesystem" where
  "downloadRangeAppend nw dstPath startByte fs =
     (case range_reply nw startByte of
        Inl e \<Rightarrow> (Inl e, fs)
      | Inr r \<Rightarrow>
          if can_write nw dstPath
          then (Inr \<lparr> ra_elapsed = seconds r, ra_size = length (body r), ra_status = status r \<rparr>,
                fs(dstPath \<mapsto> content fs dstPath @ body r))
          else (Inl FsError, fs))"

text \<open>\<open>RangeResult\<close>; its field \<open>size\<close> is \<open>sizeB\<close> here.\<close>

record RangeResult =
  elapsed :: real
  sizeB :: nat
  usedRange :: bool
  retried :: bool

text \<open>
  The \<open>while (totalLen === undefined || offset < totalLen)\<close> loop. It need not end (a server
  without a content length that answers 206 with a non-empty body for ever): the value
  \<open>None\<close> is a call that does not return.
\<close>

partial_function (option) resume_loop ::
  "net \<Rightarrow> string \<Rightarrow> nat option \<Rightarrow> nat \<Rightarrow> real \<Rightarrow> nat \<Rightarrow> filesystem \<Rightarrow>
   ((dl_error + real \<times> nat) \<times> filesystem) option" where
  "resume_loop nw dstPath totalLen offset totalElapsed totalAppended fs =
     (if (case totalLen of None \<Rightarrow> True | Some l \<Rightarrow> offset < l) then
        (case downloadRangeAppend nw dstPath offset fs of
           (Inl e, fs') \<Rightarrow> Some (Inl e, fs')
         | (Inr rr, fs') \<Rightarrow>
             if ra_status rr = 200
             then Some (Inr (totalElapsed + ra_elapsed rr, totalAppended + ra_size rr), fs')
             else if ra_size rr \<le> 0
             then Some (Inr (totalElapsed + ra_elapsed rr, totalAppended + ra_size rr), fs')
             else resume_loop nw dstPath totalLen (offset + ra_size rr)
                    (totalElapsed + ra_elapsed rr) (totalAppended + ra_size rr) fs')
      else Some (Inr (totalElapsed, totalAppended), fs))"

declare resume_loop.simps [code]

definition downloadWithResume ::
  "net \<Rightarrow> string \<Rightarrow> filesystem \<Rightarrow> ((dl_error + RangeResult) \<times> filesystem) option" where
  "downloadWithResume nw dstPath fs =
     (let h = (case head_reply nw of
                 Some i \<Rightarrow> i
               | None \<Rightarrow> \<lparr> acceptRanges = False, contentLength = None \<rparr>);
          supportRange = acceptRanges h;
          existed = fileSize fs dstPath
      in if \<not> supportRange then
           (case downloadWhole nw dstPath fs of
              (Inl e, fs') \<Rightarrow> Some (Inl e, fs')
            | (Inr (el, sz), fs') \<Rightarrow>
                Some (Inr \<lparr> elapsed = el, sizeB = sz, usedRange = False, retried = (existed > 0) \<rparr>,
                      fs'))
         else
           (let totalLen = contentLength h;
                stale = (case totalLen of None \<Rightarrow> False | Some l \<Rightarrow> existed > l);
                fs1 = (if stale then fs(dstPath := None) else fs);
                offset = (if stale then 0 else existed)
            in (case resume_loop nw dstPath totalLen offset 0 0 fs1 of
                  None \<Rightarrow> None
                | Some (Inl e, fs') \<Rightarrow> Some (Inl e, fs')
                | Some (Inr (totalElapsed, totalAppended), fs') \<Rightarrow>
                    Some (Inr \<lparr> elapsed = totalElapsed, sizeB = totalAppended,
                               usedRange = supportRange, retried = (existed > 0) \<rparr>, fs'))))"

text \<open>
  Two servers for the examples. \<open>honest_server b t\<close> announces \<open>Accept-Ranges: bytes\<close> and
  the length of the object \<open>b\<close>, and answers a range request inside the object with 206 and
  the rest of the object (416 and no body outside it); every request takes \<open>t\<close> seconds.
  \<open>range_ignoring_server b t\<close> announces the same but answers every range request with 200
  and the whole object.
\<close>

definition honest_range :: "bytes \<Rightarrow> real \<Rightarrow> nat \<Rightarrow> dl_error + RangeReply" where
  "honest_range b t start =
     (if start < length b then Inr \<lparr> status = 206, body = drop start b, seconds = t \<rparr>
      else Inr \<lparr> status = 416, body = [], seconds = t \<rparr>)"

definition always_writable :: "string \<Rightarrow> bool" where
  "always_writable path = True"

definition honest_server :: "bytes \<Rightarrow> real \<Rightarrow> net" where
  "honest_server b t =
     \<lparr> head_reply = Some \<lparr> acceptRanges = True, contentLength = Some (length b) \<rparr>,
       whole_reply = Inr (b, t),
       range_reply = honest_range b t,
       can_write = always_writable \<rparr>"

definition ignoring_range :: "bytes \<Rightarrow> real \<Rightarrow> nat \<Rightarrow> dl_error + RangeReply" where
  "ignoring_range b t start = Inr \<lparr> status = 200, body = b, seconds = t \<rparr>"

definition range_ignoring_server :: "bytes \<Rightarrow> real \<Rightarrow> net" where
  "range_ignoring_server b t =
     \<lparr> head_reply = Some \<lparr> acceptRanges = True, contentLength = Some (length b) \<rparr>,
       whole_reply = Inr (b, t),
       range_reply = ignoring_range b t,
       can_write = always_writable \<rparr>"

section \<open>Runner.ts: the batch orchestrator\<close>

text \<open>
  \<open>enum Mode { WIFI_ONLY = 'WIFI_ONLY', AUTO_SWITCH = 'AUTO_SWITCH' }\<close> is a string enum:
  at run time a mode is a string, and \<open>runBatch\<close> only compares it with
  \<open>Mode.AUTO_SWITCH\<close>.
\<close>

type_synonym Mode = string

definition WIFI_ONLY :: Mode where "WIFI_ONLY = ''WIFI_ONLY''"
definition AUTO_SWITCH :: Mode where "AUTO_SWITCH = ''AUTO_SWITCH''"

datatype NetPath = wifi | cell

text \<open>\<open>PerFile\<close>; the optional fields are \<open>None\<close> when the source leaves them out.\<close>

record PerFile =
  pf_url :: string
  pf_t :: real
  pf_bytes :: nat
  pf_path :: "NetPath option"
  pf_used_range :: "bool option"
  pf_retried :: "bool option"

definition CONC_BEFORE :: int where "CONC_BEFORE = 3"
definition CONC_WEAK :: int where "CONC_WEAK = 2"
definition CONC_AFTER :: int where "CONC_AFTER = 8"
definition MAX_PROMPTS :: int where "MAX_PROMPTS = 1"
definition NET_POLL_INTERVAL :: int where "NET_POLL_INTERVAL = 1000"
definition NET_POLL_TIMEOUT :: int where "NET_POLL_TIMEOUT = 120000"

definition kbps :: "nat \<Rightarrow> real \<Rightarrow> real" where
  "kbps nbytes sec = (real nbytes / 1024) / max 0.001 sec"

text \<open>
  The world outside the batch: the server behind each URL, and the default network id
  (\<open>getDefaultNetId\<close>, 0 when there is none or the call fails) as a function of the time in
  milliseconds. Time is explicit: \<open>Date.now()\<close> is the \<open>now\<close> that a step is given, a
  \<open>setTimeout\<close> of \<open>d\<close> ms resumes exactly \<open>d\<close> ms later, and the other awaited calls of the
  migration (\<open>getDefaultNetId\<close>, \<open>openWifiSettings\<close>) take no time.
\<close>

record world =
  server :: "string \<Rightarrow> net"
  netId_at :: "int \<Rightarrow> nat"

text \<open>
  \<open>waitForDefaultNetChange\<close>: the loop \<open>while (Date.now() < deadline)\<close>; the result is the
  boolean it returns and the time at which it returns.
\<close>

function wait_poll :: "(int \<Rightarrow> nat) \<Rightarrow> nat \<Rightarrow> int \<Rightarrow> int \<Rightarrow> bool \<times> int" where
  "wait_poll nid prevNetId deadline now =
     (if now < deadline then
        (let cur = nid now in
         if cur \<noteq> 0 \<and> cur \<noteq> prevNetId then (True, now)
         else wait_poll nid prevNetId deadline (now + NET_POLL_INTERVAL))
      else (False, now))"
  by pat_completeness auto
termination
  by (relation "measure (\<lambda>(nid, prevNetId, deadline, now). nat (deadline - now))")
     (auto simp: NET_POLL_INTERVAL_def)

declare wait_poll.simps [simp del]

definition waitForDefaultNetChange :: "(int \<Rightarrow> nat) \<Rightarrow> nat \<Rightarrow> int \<Rightarrow> int \<Rightarrow> bool \<times> int" where
  "waitForDefaultNetChange nid prevNetId timeoutMs now =
     wait_poll nid prevNetId (now + timeoutMs) now"

text \<open>
  Where the asynchronous body of task \<open>i\<close> is suspended: at the probe and download
  (\<open>Fetch\<close>), at the drain poll (\<open>Drain\<close>), at the awaits of the link switch with the
  \<open>pauseStart\<close> and \<open>prevId\<close> it has read (\<open>SwitchWait\<close>), or not at all because the body has
  ended (\<open>Settled\<close>).
\<close>

datatype task_stage = Fetch | Drain | SwitchWait int nat | Settled

record BatchResult =
  totalTime :: real
  r_totalBytes :: nat
  r_perFile :: "PerFile option list"
  wallTime :: real
  r_pausedMs :: int

text \<open>
  The variables of one \<open>runBatch\<close> call. A pool task is the index \<open>i\<close> of its URL.
  \<open>fastUntil\<close> is the field of the prober that \<open>boostShort\<close> writes; the probe requests
  themselves and the JSON log touch nothing that \<open>runBatch\<close> returns and are left out.
  \<open>files\<close> is the file system, \<open>stage\<close> the suspension point of each started task,
  \<open>idleResolved\<close> whether the promise of \<open>pool.idle()\<close> is resolved, \<open>returned\<close> the value
  \<open>runBatch\<close> has returned.
\<close>

record batch =
  urls :: "string list"
  filesDir :: string
  wallStart :: int
  perFile :: "PerFile option list"
  pool :: "nat PriorityPool"
  detector :: WeakNetDetector
  fastUntil :: int
  totalBytes :: nat
  pausedMs :: int
  speeds :: "real list"
  promptsLeft :: int
  switched :: bool
  switching :: bool
  weakDetectIndex :: int
  switchTriggerTs :: int
  files :: filesystem
  stage :: "nat \<Rightarrow> task_stage"
  idleResolved :: bool
  returned :: "BatchResult option"

text \<open>The URL list: \<open>img_001.jpg\<close> ... under \<open>baseUrl\<close> without one trailing slash.\<close>

function String_nat :: "nat \<Rightarrow> string" where
  "String_nat n =
     (if n < 10 then [char_of (48 + n)]
      else String_nat (n div 10) @ [char_of (48 + n mod 10)])"
  by pat_completeness auto
termination
  by (relation "measure id") auto

declare String_nat.simps [simp del]

definition padStart :: "string \<Rightarrow> nat \<Rightarrow> char \<Rightarrow> string" where
  "padStart s n c = replicate (n - length s) c @ s"

definition strip_slash :: "string \<Rightarrow> string" where
  "strip_slash b = (if b \<noteq> [] \<and> last b = CHR ''/'' then butlast b else b)"

definition build_urls :: "string \<Rightarrow> int \<Rightarrow> string list" where
  "build_urls baseUrl count =
     map (\<lambda>i. strip_slash baseUrl @ ''/'' @ ''img_'' @ padStart (String_nat (nat i)) 3 CHR ''0''
               @ ''.jpg'') [1..count]"

text \<open>\<open>enqueue(i)\<close>: the task of URL \<open>i\<close> is pushed with the small-file hint of its URL.\<close>

definition enqueue :: "nat \<Rightarrow> batch \<Rightarrow> batch" where
  "enqueue i st = st\<lparr>pool := push i (isSmallByName (urls st ! i)) (pool st)\<rparr>"

text \<open>The \<open>tick\<close> of \<open>pool.idle()\<close>.\<close>

definition idle_tick :: "batch \<Rightarrow> batch" where
  "idle_tick st = (if idle (pool st) then st\<lparr>idleResolved := True\<rparr> else st)"

definition start_batch :: "string \<Rightarrow> int \<Rightarrow> string \<Rightarrow> int \<Rightarrow> filesystem \<Rightarrow> batch" where
  "start_batch baseUrl count dir now fs =
     (let us = build_urls baseUrl count;
          st = \<lparr> urls = us, filesDir = dir, wallStart = now,
                 perFile = replicate (length us) None,
                 pool = new_pool CONC_BEFORE,
                 detector = new_detector default_params,
                 fastUntil = 0, totalBytes = 0, pausedMs = 0, speeds = [],
                 promptsLeft = MAX_PROMPTS, switched = False, switching = False,
                 weakDetectIndex = - 1, switchTriggerTs = 0,
                 files = fs, stage = (\<lambda>i. Fetch), idleResolved = False, returned = None \<rparr>
      in idle_tick (fold enqueue [0..<length us] st))"

text \<open>The end of a task body: its promise settles; the pool's callback runs as a step of its own.\<close>

definition settle :: "nat \<Rightarrow> batch \<Rightarrow> batch" where
  "settle i st = st\<lparr>stage := (stage st)(i := Settled)\<rparr>"

definition boostShort :: "int \<Rightarrow> int \<Rightarrow> batch \<Rightarrow> batch" where
  "boostShort durationMs now st = st\<lparr>fastUntil := max (fastUntil st) (now + durationMs)\<rparr>"

text \<open>
  The \<open>tick\<close> of the drain poll. When it resolves, the task reads \<open>prevId\<close> and \<open>pauseStart\<close>
  and waits for the link switch; otherwise it stays at the poll.
\<close>

definition drain_tick :: "world \<Rightarrow> nat \<Rightarrow> int \<Rightarrow> batch \<Rightarrow> batch" where
  "drain_tick w i now st =
     (let s = snapshot (pool st) in
      if s_smallQ s = 0 \<and> s_running s \<le> CONC_WEAK
      then st\<lparr>stage := (stage st)(i := SwitchWait now (netId_at w now))\<rparr>
      else st\<lparr>stage := (stage st)(i := Drain)\<rparr>)"

text \<open>The \<open>try\<close> block after \<open>await downloadWithResume\<close> has returned \<open>rr\<close>, up to the next await.\<close>

definition on_success :: "Mode \<Rightarrow> world \<Rightarrow> nat \<Rightarrow> RangeResult \<Rightarrow> real \<Rightarrow> int \<Rightarrow> batch \<Rightarrow> batch" where
  "on_success mode w i rr t now st =
     (let u = urls st ! i;
          st1 = st\<lparr>totalBytes := totalBytes st + sizeB rr\<rparr>;
          st2 = st1\<lparr>perFile := (perFile st1)
                  [i := Some \<lparr> pf_url = u, pf_t = t, pf_bytes = sizeB rr,
                               pf_path = Some (if switched st1 then cell else wifi),
                               pf_used_range = Some (usedRange rr),
                               pf_retried = Some (retried rr) \<rparr>]\<rparr>;
          spd = kbps (sizeB rr) t;
          st3 = st2\<lparr>speeds := speeds st2 @ [spd]\<rparr>
      in if mode = AUTO_SWITCH \<and> \<not> switched st3 \<and> \<not> switching st3 \<and> promptsLeft st3 > 0 then
           (let d = fst (feed (detector st3) (Some spd) True);
                st4 = st3\<lparr>detector := snd (feed (detector st3) (Some spd) True)\<rparr>
            in if isWeak d then
                 (let st5 = (if confidence d \<ge> 0.5 then boostShort 15000 now st4 else st4);
                      st6 = st5\<lparr>switching := True, weakDetectIndex := int i,
                                 switchTriggerTs := now\<rparr>;
                      st7 = st6\<lparr>pool := setLimit CONC_WEAK (pool st6)\<rparr>
                  in drain_tick w i now st7)
               else settle i st4)
         else settle i st3)"

text \<open>The \<open>catch\<close> block.\<close>

definition on_failure :: "nat \<Rightarrow> batch \<Rightarrow> batch" where
  "on_failure i st =
     (let u = urls st ! i;
          st1 = st\<lparr>perFile := (perFile st)
                  [i := Some \<lparr> pf_url = u, pf_t = - 1, pf_bytes = 0,
                               pf_path = Some (if switched st then cell else wifi),
                               pf_used_range = None, pf_retried = None \<rparr>]\<rparr>;
          st2 = st1\<lparr>detector := snd (feed (detector st1) (Some 0) False)\<rparr>
      in settle i st2)"

text \<open>
  The rest of the migration, after \<open>await waitForDefaultNetChange(prevId)\<close>: the boolean it
  returns is not looked at.
\<close>

definition switch_done :: "world \<Rightarrow> nat \<Rightarrow> int \<Rightarrow> nat \<Rightarrow> batch \<Rightarrow> batch" where
  "switch_done w i pauseStart prevId st =
     (let r = waitForDefaultNetChange (netId_at w) prevId NET_POLL_TIMEOUT pauseStart;
          now = snd r;
          st1 = st\<lparr>pausedMs := pausedMs st + (now - pauseStart)\<rparr>;
          st2 = st1\<lparr>switched := True\<rparr>;
          st3 = st2\<lparr>promptsLeft := promptsLeft st2 - 1\<rparr>;
          st4 = st3\<lparr>pool := setLimit CONC_AFTER (pool st3)\<rparr>;
          st5 = st4\<lparr>switching := False\<rparr>
      in settle i st5)"

text \<open>After \<open>await pool.idle()\<close>: the times and the returned value.\<close>

definition finish :: "int \<Rightarrow> batch \<Rightarrow> batch" where
  "finish now st =
     (let wall = real_of_int (now - wallStart st) / 1000;
          total = max 0 (wall - real_of_int (pausedMs st) / 1000)
      in st\<lparr>returned := Some \<lparr> totalTime = total, r_totalBytes = totalBytes st,
                                 r_perFile = perFile st, wallTime = wall,
                                 r_pausedMs = pausedMs st \<rparr>\<rparr>)"

text \<open>
  The steps of the event loop that touch the batch. \<open>Downloaded i t now\<close>: the download of
  the running task \<open>i\<close> settles at time \<open>now\<close>, \<open>t\<close> seconds after its \<open>t0\<close>.
  \<open>DrainTick i now\<close>: the 100 ms timer of the drain poll of task \<open>i\<close> fires.
  \<open>SwitchDone i\<close>: the awaits of the link switch of task \<open>i\<close> are over.
  \<open>Finished i\<close>: the pool's \<open>finally\<close> callback of the settled task \<open>i\<close>.
  \<open>IdleTick\<close>: the 50 ms timer of \<open>pool.idle()\<close> fires. \<open>Resumed now\<close>: \<open>runBatch\<close>
  continues after \<open>await pool.idle()\<close>. A step that cannot happen in a state (for example the
  download of a task that is not running) is \<open>None\<close>, as is a download that never returns.
\<close>

datatype event =
    Downloaded nat real int
  | DrainTick nat int
  | SwitchDone nat
  | Finished nat
  | IdleTick
  | Resumed int

definition migrationStep :: "world \<Rightarrow> nat \<Rightarrow> batch \<Rightarrow> batch option" where
  "migrationStep w i st =
     (case stage st i of
        SwitchWait pauseStart prevId \<Rightarrow> Some (switch_done w i pauseStart prevId st)
      | _ \<Rightarrow> None)"

fun step :: "Mode \<Rightarrow> world \<Rightarrow> event \<Rightarrow> batch \<Rightarrow> batch option" where
  "step mode w (Downloaded i t now) st =
     (if i \<in> set (inflight (pool st)) \<and> stage st i = Fetch then
        (let u = urls st ! i; dst = filesDir st @ ''/'' @ basename u in
         case downloadWithResume (server w u) dst (files st) of
           None \<Rightarrow> None
         | Some (Inl e, fs') \<Rightarrow> Some (on_failure i (st\<lparr>files := fs'\<rparr>))
         | Some (Inr rr, fs') \<Rightarrow> Some (on_success mode w i rr t now (st\<lparr>files := fs'\<rparr>)))
      else None)"
| "step mode w (DrainTick i now) st =
     (if stage st i = Drain then Some (drain_tick w i now st) else None)"
| "step mode w (SwitchDone i) st = migrationStep w i st"
| "step mode w (Finished i) st =
     (if stage st i = Settled then
        (case complete i (pool st) of
           None \<Rightarrow> None
         | Some p \<Rightarrow> Some (st\<lparr>pool := p\<rparr>))
      else None)"
| "step mode w IdleTick st =
     (if idleResolved st then None else Some (idle_tick st))"
| "step mode w (Resumed now) st =
     (if idleResolved st \<and> returned st = None then Some (finish now st) else None)"

fun run_events :: "Mode \<Rightarrow> world \<Rightarrow> event list \<Rightarrow> batch \<Rightarrow> batch option" where
  "run_events mode w [] st = Some st"
| "run_events mode w (e # es) st =
     (case step mode w e st of None \<Rightarrow> None | Some st' \<Rightarrow> run_events mode w es st')"

text \<open>
  \<open>runBatch\<close> along a sequence of steps: the state reached, whose field \<open>returned\<close> is the
  value returned to the caller once there is one.
\<close>

definition runBatch ::
  "string \<Rightarrow> int \<Rightarrow> Mode \<Rightarrow> string \<Rightarrow> world \<Rightarrow> int \<Rightarrow> filesystem \<Rightarrow> event list \<Rightarrow> batch option" where
  "runBatch baseUrl count mode dir w now fs es =
     run_events mode w es (start_batch baseUrl count dir now fs)"

text \<open>The specification's \<open>MigrationState\<close>, read off the flags \<open>switching\<close> and \<open>switched\<close>.\<close>

datatype MigrationState = Normal | Draining | Switched

definition migrationState :: "batch \<Rightarrow> MigrationState" where
  "migrationState st = (if switched st then Switched else if switching st then Draining else Normal)"

text \<open>
  A world for the examples: every URL is served by an honest range server holding the
  object \<open>HELLO\<close>, the default network keeps the id 7, and in \<open>complete_files\<close> every path
  already holds the whole object (the state a finished batch leaves behind).
\<close>

definition hello_server :: "string \<Rightarrow> net" where
  "hello_server u = honest_server ''HELLO'' 1"

definition steady_net :: "int \<Rightarrow> nat" where
  "steady_net t = 7"

definition steady_world :: world where
  "steady_world = \<lparr> server = hello_server, netId_at = steady_net \<rparr>"

definition complete_files :: filesystem where
  "complete_files p = Some ''HELLO''"

text \<open>
  The second run of a batch of ten files in \<open>steady_world\<close> on \<open>complete_files\<close>: each
  download finds its file complete and returns after one second with 0 bytes; the tenth
  settles while the nine before it are done.
\<close>

definition second_run :: "event list" where
  "second_run =
     [Downloaded 0 1 1000, Finished 0, Downloaded 1 1 1000, Finished 1,
      Downloaded 2 1 1000, Finished 2, Downloaded 3 1 2000, Finished 3,
      Downloaded 4 1 2000, Finished 4, Downloaded 5 1 2000, Finished 5,
      Downloaded 6 1 3000, Finished 6, Downloaded 7 1 3000, Finished 7,
      Downloaded 8 1 3000, Finished 8, Downloaded 9 1 4000]"

text \<open>What the migration claims observe of a batch.\<close>

definition migration_view :: "batch \<Rightarrow> MigrationState \<times> bool \<times> int \<times> int \<times> task_stage" where
  "migration_view st = (migrationState st, switched st, promptsLeft st, pausedMs st, stage st 9)"

section \<open>Facts about the pool\<close>

lemma pump_loop_full: "\<not> running p < limit p \<Longrightarrow> pump_loop p = p"
  by (simp add: pump_loop.simps)

lemma pump_loop_empty: "small p = [] \<Longrightarrow> large p = [] \<Longrightarrow> pump_loop p = p"
  by (simp add: pump_loop.simps next_task_def)

lemma pump_loop_small:
  "running p < limit p \<Longrightarrow> small p = t # ts \<Longrightarrow>
   pump_loop p = pump_loop (p\<lparr>small := ts, running := running p + 1,
                               started := started p @ [t], inflight := inflight p @ [t]\<rparr>)"
  by (subst pump_loop.simps) (simp add: next_task_def)

lemma pump_loop_large:
  "running p < limit p \<Longrightarrow> small p = [] \<Longrightarrow> large p = t # ts \<Longrightarrow>
   pump_loop p = pump_loop (p\<lparr>large := ts, running := running p + 1,
                               started := started p @ [t], inflight := inflight p @ [t]\<rparr>)"
  by (subst pump_loop.simps) (simp add: next_task_def)

lemma pump_loop_limit: "limit (pump_loop p) = limit p"
  by (induction p rule: pump_loop.induct)
     (subst pump_loop.simps, auto simp: next_task_def split: list.splits)

lemma pump_limit: "limit (pump p) = limit p"
  by (simp add: pump_def pump_loop_limit)

lemma pump_loop_pumping: "pumping (pump_loop p) = pumping p"
  by (induction p rule: pump_loop.induct)
     (subst pump_loop.simps, auto simp: next_task_def split: list.splits)

lemma pump_loop_dispatch:
  "started (pump_loop p) = started p @ take (nat (limit p - running p)) (small p @ large p)"
proof (induction p rule: pump_loop.induct)
  case (1 p)
  show ?case
  proof (cases "running p < limit p")
    case False
    then show ?thesis by (simp add: pump_loop_full)
  next
    case True
    define k where "k = nat (limit p - (running p + 1))"
    from True have k: "nat (limit p - running p) = Suc k" "nat (limit p - (running p + 1)) = k"
      unfolding k_def by linarith+
    show ?thesis
    proof (cases "small p")
      case (Cons t ts)
      with True 1 k show ?thesis
        by (subst pump_loop.simps) (simp add: next_task_def)
    next
      case Nil
      show ?thesis
      proof (cases "large p")
        case Nil
        with \<open>small p = []\<close> show ?thesis by (simp add: pump_loop_empty)
      next
        case (Cons t ts)
        with True 1 k \<open>small p = []\<close> show ?thesis
          by (subst pump_loop.simps) (simp add: next_task_def)
      qed
    qed
  qed
qed

lemma pump_loop_running:
  "running (pump_loop p) =
     running p + int (min (nat (limit p - running p)) (length (small p @ large p)))"
proof (induction p rule: pump_loop.induct)
  case (1 p)
  show ?case
  proof (cases "running p < limit p")
    case False
    then show ?thesis by (simp add: pump_loop_full)
  next
    case True
    define k where "k = nat (limit p - (running p + 1))"
    from True have k: "nat (limit p - running p) = Suc k" "nat (limit p - (running p + 1)) = k"
      unfolding k_def by linarith+
    show ?thesis
    proof (cases "small p")
      case (Cons t ts)
      with True 1 k show ?thesis
        by (subst pump_loop.simps) (simp add: next_task_def)
    next
      case Nil
      show ?thesis
      proof (cases "large p")
        case Nil
        with \<open>small p = []\<close> show ?thesis by (simp add: pump_loop_empty)
      next
        case (Cons t ts)
        with True 1 k \<open>small p = []\<close> show ?thesis
          by (subst pump_loop.simps) (simp add: next_task_def)
      qed
    qed
  qed
qed

lemma pump_loop_inflight:
  "inflight (pump_loop p) = inflight p @ take (nat (limit p - running p)) (small p @ large p)"
proof (induction p rule: pump_loop.induct)
  case (1 p)
  show ?case
  proof (cases "running p < limit p")
    case False
    then show ?thesis by (simp add: pump_loop_full)
  next
    case True
    define k where "k = nat (limit p - (running p + 1))"
    from True have k: "nat (limit p - running p) = Suc k" "nat (limit p - (running p + 1)) = k"
      unfolding k_def by linarith+
    show ?thesis
    proof (cases "small p")
      case (Cons t ts)
      with True 1 k show ?thesis
        by (subst pump_loop.simps) (simp add: next_task_def)
    next
      case Nil
      show ?thesis
      proof (cases "large p")
        case Nil
        with \<open>small p = []\<close> show ?thesis by (simp add: pump_loop_empty)
      next
        case (Cons t ts)
        with True 1 k \<open>small p = []\<close> show ?thesis
          by (subst pump_loop.simps) (simp add: next_task_def)
      qed
    qed
  qed
qed

lemma pump_running_lower: "running p \<le> running (pump p)"
  by (simp add: pump_def pump_loop_running)

lemma pump_running_upper: "running (pump p) \<le> max (running p) (limit p)"
  by (simp add: pump_def pump_loop_running) linarith

lemma pump_loop_counts:
  "running (pump_loop p) - int (length (inflight (pump_loop p))) =
   running p - int (length (inflight p))"
proof -
  have "length (inflight (pump_loop p)) =
        length (inflight p) + min (nat (limit p - running p)) (length (small p @ large p))"
    unfolding pump_loop_inflight by (simp add: min.commute del: take_append)
  then show ?thesis unfolding pump_loop_running by simp
qed

lemma pump_counts:
  "running p = int (length (inflight p)) \<Longrightarrow> running (pump p) = int (length (inflight (pump p)))"
  using pump_loop_counts [of "p\<lparr>pumping := True\<rparr>"] by (simp add: pump_def)

lemma pump_started_full: "limit p \<le> running p \<Longrightarrow> started (pump p) = started p"
  by (simp add: pump_def pump_loop_full)

lemma pump_running_full: "limit p \<le> running p \<Longrightarrow> running (pump p) = running p"
  by (simp add: pump_def pump_loop_full)

lemma apply_op_counts:
  assumes "running p = int (length (inflight p))" and "apply_op x p = Some p'"
  shows "running p' = int (length (inflight p'))"
proof (cases x)
  case (Push t sm)
  with assms show ?thesis by (auto simp: push_def intro!: pump_counts)
next
  case (SetLimit n)
  with assms show ?thesis by (auto simp: setLimit_def intro!: pump_counts)
next
  case (Complete t)
  with assms have t: "t \<in> set (inflight p)"
    and p': "p' = pump (p\<lparr>running := running p - 1, pumping := False,
                            inflight := remove1 t (inflight p)\<rparr>)"
    by (auto simp: complete_def split: if_splits)
  from t have "length (inflight p) > 0" by (cases "inflight p") auto
  then have "int (length (inflight p) - 1) = int (length (inflight p)) - 1" by linarith
  then have "running (p\<lparr>running := running p - 1, pumping := False,
                            inflight := remove1 t (inflight p)\<rparr>) =
      int (length (inflight (p\<lparr>running := running p - 1, pumping := False,
                            inflight := remove1 t (inflight p)\<rparr>)))"
    using t assms(1) by (simp add: length_remove1)
  from pump_counts [OF this] show ?thesis unfolding p' .
qed

lemma apply_op_limit:
  "apply_op x p = Some p' \<Longrightarrow>
   limit p' = (case x of SetLimit n \<Rightarrow> max 1 n | _ \<Rightarrow> limit p)"
  by (cases x) (auto simp: push_def setLimit_def complete_def pump_limit split: if_splits)

lemma apply_op_running_upper:
  "apply_op x p = Some p' \<Longrightarrow> running p' \<le> max (running p) (limit p')"
proof (cases x)
  case (Push t sm)
  assume "apply_op x p = Some p'"
  with Push have p': "p' = push t sm p" by simp
  show ?thesis unfolding p' push_def
    using pump_running_upper [of "if sm then p\<lparr>small := small p @ [t]\<rparr> else p\<lparr>large := large p @ [t]\<rparr>"]
    by (simp add: pump_limit split: if_splits)
next
  case (SetLimit n)
  assume "apply_op x p = Some p'"
  with SetLimit have p': "p' = setLimit n p" by simp
  show ?thesis unfolding p' setLimit_def
    using pump_running_upper [of "p\<lparr>limit := max 1 n\<rparr>"] by (simp add: pump_limit)
next
  case (Complete t)
  assume "apply_op x p = Some p'"
  with Complete have p': "p' = pump (p\<lparr>running := running p - 1, pumping := False,
                            inflight := remove1 t (inflight p)\<rparr>)"
    by (auto simp: complete_def split: if_splits)
  show ?thesis unfolding p'
    using pump_running_upper [of "p\<lparr>running := running p - 1, pumping := False,
                            inflight := remove1 t (inflight p)\<rparr>"] by (simp add: pump_limit)
qed

lemma peak_limit_ge: "l \<le> peak_limit l xs"
  by (induction l xs rule: peak_limit.induct) auto

lemma peak_limit_mono: "l \<le> l' \<Longrightarrow> peak_limit l xs \<le> peak_limit l' xs"
  by (induction l xs arbitrary: l' rule: peak_limit.induct) auto

lemma run_ops_counts:
  "running p = int (length (inflight p)) \<Longrightarrow> run_ops xs p = Some p' \<Longrightarrow>
   running p' = int (length (inflight p'))"
proof (induction xs arbitrary: p)
  case Nil
  then show ?case by simp
next
  case (Cons x xs)
  then show ?case by (auto split: option.splits dest: apply_op_counts)
qed

lemma run_ops_peak:
  "run_ops xs p = Some p' \<Longrightarrow> running p' \<le> max (running p) (peak_limit (limit p) xs)"
proof (induction xs arbitrary: p)
  case Nil
  then show ?case by simp
next
  case (Cons x xs)
  then obtain q where q: "apply_op x p = Some q" and r: "run_ops xs q = Some p'"
    by (auto split: option.splits)
  from Cons.IH [OF r] have 1: "running p' \<le> max (running q) (peak_limit (limit q) xs)" .
  from apply_op_running_upper [OF q] have 2: "running q \<le> max (running p) (limit q)" .
  have 3: "limit q \<le> peak_limit (limit q) xs" by (rule peak_limit_ge)
  have 4: "peak_limit (limit q) xs \<le> peak_limit (limit p) (x # xs)"
    using apply_op_limit [OF q] by (cases x) (auto simp: max.coboundedI2)
  from 1 2 3 4 show ?case by linarith
qed

lemma apply_op_within:
  assumes "running p \<le> limit p" and "apply_op x p = Some p'"
    and "case x of SetLimit n \<Rightarrow> running p \<le> max 1 n | _ \<Rightarrow> True"
  shows "running p' \<le> limit p'"
proof -
  from apply_op_running_upper [OF assms(2)] have "running p' \<le> max (running p) (limit p')" .
  moreover have "running p \<le> limit p'"
    using assms apply_op_limit [OF assms(2)] by (cases x) auto
  ultimately show ?thesis by linarith
qed

lemma run_ops_within:
  "running p \<le> limit p \<Longrightarrow> never_undercut xs p \<Longrightarrow> run_ops xs p = Some p' \<Longrightarrow>
   running p' \<le> limit p'"
proof (induction xs arbitrary: p)
  case Nil
  then show ?case by simp
next
  case (Cons x xs)
  then obtain q where q: "apply_op x p = Some q" and r: "run_ops xs q = Some p'"
    by (auto split: option.splits)
  from Cons.prems q have c: "case x of SetLimit n \<Rightarrow> running p \<le> max 1 n | _ \<Rightarrow> True"
    and n: "never_undercut xs q" by auto
  from apply_op_within [OF Cons.prems(1) q c] have "running q \<le> limit q" .
  from Cons.IH [OF this n r] show ?case .
qed

lemma run_ops_limit_pos: "1 \<le> limit p \<Longrightarrow> run_ops xs p = Some p' \<Longrightarrow> 1 \<le> limit p'"
proof (induction xs arbitrary: p)
  case Nil
  then show ?case by simp
next
  case (Cons x xs)
  then obtain q where q: "apply_op x p = Some q" and r: "run_ops xs q = Some p'"
    by (auto split: option.splits)
  from apply_op_limit [OF q] Cons.prems(1) have "1 \<le> limit q" by (cases x) auto
  from Cons.IH [OF this r] show ?case .
qed

text \<open>Rules that evaluate a run of pool operations on concrete tasks.\<close>

lemmas pool_eval = new_pool_def push_def setLimit_def complete_def pump_def
  pump_loop_full pump_loop_empty pump_loop_small pump_loop_large

section \<open>Facts about the small-file heuristic\<close>

lemma includes_sublist: "includes_str s pat \<longleftrightarrow> sublist pat s"
  by (induction s) (auto simp: sublist_Cons_right)

lemma endsWith_suffix: "endsWith s pat \<longleftrightarrow> suffix pat s"
  unfolding endsWith_def
proof
  assume a: "length pat \<le> length s \<and> drop (length s - length pat) s = pat"
  then have "s = take (length s - length pat) s @ pat" by (metis append_take_drop_id)
  then show "suffix pat s" by (metis suffixI)
next
  assume "suffix pat s"
  then obtain ps where "s = ps @ pat" by (auto simp: suffix_def)
  then show "length pat \<le> length s \<and> drop (length s - length pat) s = pat" by simp
qed

lemma match_img_iff:
  "match_img n = Some d \<longleftrightarrow>
     (\<exists>p. n = p @ ''img_'' @ d @ ''.jpg'') \<and> length d = 3 \<and> list_all isDigit d"
proof
  assume m: "match_img n = Some d"
  define t where "t = drop (length n - 11) n"
  from m have len: "11 \<le> length n" and t4: "take 4 t = ''img_''"
    and dg: "list_all isDigit (take 3 (drop 4 t))" and t7: "drop 7 t = ''.jpg''"
    and d: "d = take 3 (drop 4 t)"
    unfolding match_img_def t_def by (auto simp: Let_def split: if_splits)
  from len have lt: "length t = 11" unfolding t_def by simp
  have "drop 4 t = take 3 (drop 4 t) @ drop 3 (drop 4 t)" by (simp only: append_take_drop_id)
  moreover have "drop 3 (drop 4 t) = drop 7 t" by simp
  moreover have "t = take 4 t @ drop 4 t" by (simp only: append_take_drop_id)
  ultimately have "t = take 4 t @ take 3 (drop 4 t) @ drop 7 t" by metis
  with t4 t7 d have "t = ''img_'' @ d @ ''.jpg''" by simp
  moreover have "n = take (length n - 11) n @ t" unfolding t_def by simp
  ultimately have "\<exists>p. n = p @ ''img_'' @ d @ ''.jpg''" by metis
  moreover from d lt have "length d = 3" by simp
  ultimately show "(\<exists>p. n = p @ ''img_'' @ d @ ''.jpg'') \<and> length d = 3 \<and> list_all isDigit d"
    using dg d by simp
next
  assume "(\<exists>p. n = p @ ''img_'' @ d @ ''.jpg'') \<and> length d = 3 \<and> list_all isDigit d"
  then obtain p where n: "n = p @ ''img_'' @ d @ ''.jpg''" and l: "length d = 3"
    and dg: "list_all isDigit d" by auto
  from n l have "drop (length n - 11) n = ''img_'' @ d @ ''.jpg''" by simp
  with n l dg show "match_img n = Some d" by (simp add: match_img_def Let_def)
qed

lemma sublist_small_s: "sublist ''_small'' n \<Longrightarrow> sublist ''_s'' n"
proof -
  assume "sublist ''_small'' n"
  then obtain ps ss where "n = ps @ ''_small'' @ ss" by (auto simp: sublist_def)
  then have "n = ps @ ''_s'' @ (''mall'' @ ss)" by simp
  then show ?thesis unfolding sublist_def by blast
qed

section \<open>Facts about the detector\<close>

lemma feed_cfg: "cfg (snd (feed d s ok)) = cfg d"
  unfolding feed_def by (simp only: Let_def snd_conv WeakNetDetector.select_convs)

lemma feed_hist: "hist (snd (feed d s ok)) = hist d @ [case s of Some r \<Rightarrow> max 0 r | None \<Rightarrow> 0]"
  unfolding feed_def by (simp only: Let_def snd_conv WeakNetDetector.select_convs)

lemma feed_isWeak_enough:
  "isWeak (fst (feed d s ok)) \<Longrightarrow> real (length (hist d) + 1) \<ge> max 3 (warmupMin (cfg d))"
  unfolding feed_def
  by (simp only: Let_def fst_conv WeakDecision.select_convs length_append list.size
        One_nat_def add_Suc_right add_0_right)

lemma feed_state_cfg: "cfg (feed_state d xs) = cfg d"
  by (induction d xs rule: feed_state.induct) (simp_all add: feed_cfg)

lemma feed_state_hist_length: "length (hist (feed_state d xs)) = length (hist d) + length xs"
  by (induction d xs rule: feed_state.induct) (simp_all add: feed_hist)

lemma feed_all_nth:
  "i < length xs \<Longrightarrow>
   feed_all d xs ! i = fst (feed (feed_state d (take i xs)) (fst (xs ! i)) (snd (xs ! i)))"
proof (induction d xs arbitrary: i rule: feed_all.induct)
  case (1 d)
  then show ?case by simp
next
  case (2 d s ok xs)
  then show ?case by (cases i) simp_all
qed

section \<open>Facts about the resumable transfer\<close>

lemma resume_loop_done:
  "totalLen = Some l \<Longrightarrow> \<not> offset < l \<Longrightarrow>
   resume_loop nw dst totalLen offset e a fs = Some (Inr (e, a), fs)"
  by (subst resume_loop.simps) simp

lemma resume_loop_200:
  assumes "case totalLen of None \<Rightarrow> True | Some l \<Rightarrow> offset < l"
    and "range_reply nw offset = Inr r" and "status r = 200" and "can_write nw dst"
  shows "resume_loop nw dst totalLen offset e a fs =
           Some (Inr (e + seconds r, a + length (body r)), fs(dst \<mapsto> content fs dst @ body r))"
  using assms by (subst resume_loop.simps) (simp add: downloadRangeAppend_def)

lemma resume_loop_206_step:
  assumes "case totalLen of None \<Rightarrow> True | Some l \<Rightarrow> offset < l"
    and "range_reply nw offset = Inr r" and "status r \<noteq> 200" and "body r \<noteq> []"
    and "can_write nw dst"
  shows "resume_loop nw dst totalLen offset e a fs =
           resume_loop nw dst totalLen (offset + length (body r)) (e + seconds r)
             (a + length (body r)) (fs(dst \<mapsto> content fs dst @ body r))"
  using assms by (subst resume_loop.simps) (simp add: downloadRangeAppend_def)

lemma range_ignored_appends:
  assumes "head_reply nw = Some h" and "acceptRanges h"
    and "fs dst = Some pre"
    and "case contentLength h of None \<Rightarrow> True | Some l \<Rightarrow> length pre < l"
    and "range_reply nw (length pre) = Inr r" and "status r = 200" and "can_write nw dst"
  shows "downloadWithResume nw dst fs =
           Some (Inr \<lparr> elapsed = seconds r, sizeB = length (body r), usedRange = True,
                      retried = (pre \<noteq> []) \<rparr>,
                 fs(dst \<mapsto> pre @ body r))"
proof -
  have ex: "fileSize fs dst = length pre" using assms(3) by (simp add: fileSize_def)
  have st: "\<not> (case contentLength h of None \<Rightarrow> False | Some l \<Rightarrow> length pre > l)"
    using assms(4) by (auto split: option.splits)
  have "resume_loop nw dst (contentLength h) (length pre) 0 0 fs =
          Some (Inr (0 + seconds r, 0 + length (body r)), fs(dst \<mapsto> content fs dst @ body r))"
    by (rule resume_loop_200 [OF assms(4) assms(5) assms(6) assms(7)])
  then show ?thesis
    using assms(1,2,3) ex st by (simp add: downloadWithResume_def Let_def content_def)
qed

lemma second_call_noop:
  assumes "head_reply nw = Some h" and "acceptRanges h" and "contentLength h = Some l"
    and "fileSize fs dst = l"
  shows "downloadWithResume nw dst fs =
           Some (Inr \<lparr> elapsed = 0, sizeB = 0, usedRange = True, retried = (0 < l) \<rparr>, fs)"
  using assms by (simp add: downloadWithResume_def Let_def resume_loop_done)

lemma honest_first_call:
  assumes "length (content fs dst) \<le> length b"
  shows "downloadWithResume (honest_server b t) dst fs =
           Some (Inr \<lparr> elapsed = (if length (content fs dst) < length b then t else 0),
                      sizeB = length b - length (content fs dst), usedRange = True,
                      retried = (fileSize fs dst > 0) \<rparr>,
                 if length (content fs dst) < length b
                 then fs(dst \<mapsto> content fs dst @ drop (length (content fs dst)) b) else fs)"
proof -
  let ?nw = "honest_server b t"
  let ?n = "length (content fs dst)"
  have sz: "fileSize fs dst = ?n" by (simp add: fileSize_def content_def split: option.splits)
  show ?thesis
  proof (cases "?n < length b")
    case True
    have r: "range_reply ?nw ?n = Inr \<lparr> status = 206, body = drop ?n b, seconds = t \<rparr>"
      using True by (simp add: honest_server_def honest_range_def)
    have "resume_loop ?nw dst (Some (length b)) ?n 0 0 fs =
          resume_loop ?nw dst (Some (length b)) (?n + length (drop ?n b)) (0 + t)
            (0 + length (drop ?n b)) (fs(dst \<mapsto> content fs dst @ drop ?n b))"
      using resume_loop_206_step [where totalLen = "Some (length b)" and offset = ?n and nw = ?nw
          and dst = dst and e = 0 and a = 0 and fs = fs, OF _ r] True
      by (simp add: honest_server_def always_writable_def)
    also have "\<dots> = Some (Inr (t, length b - ?n), fs(dst \<mapsto> content fs dst @ drop ?n b))"
      using True by (simp add: resume_loop_done)
    finally show ?thesis
      using True sz by (simp add: downloadWithResume_def Let_def honest_server_def)
  next
    case False
    with assms have "?n = length b" by simp
    with sz show ?thesis
      by (simp add: downloadWithResume_def Let_def honest_server_def resume_loop_done)
  qed
qed

section \<open>Facts about the orchestrator\<close>

lemma wait_poll_no_change:
  "\<forall>t. now \<le> t \<and> t < deadline \<longrightarrow> nid t = 0 \<or> nid t = prev \<Longrightarrow>
   fst (wait_poll nid prev deadline now) = False \<and>
   deadline \<le> snd (wait_poll nid prev deadline now) \<and>
   now \<le> snd (wait_poll nid prev deadline now)"
proof (induction nid prev deadline now rule: wait_poll.induct)
  case (1 nid prev deadline now)
  show ?case
  proof (cases "now < deadline")
    case False
    then show ?thesis by (subst (1 2 3) wait_poll.simps) simp
  next
    case True
    from "1.prems" [rule_format, of now] True
    have same: "\<not> (nid now \<noteq> 0 \<and> nid now \<noteq> prev)" by auto
    have eq: "wait_poll nid prev deadline now = wait_poll nid prev deadline (now + NET_POLL_INTERVAL)"
      using True same by (subst wait_poll.simps) (auto simp: Let_def)
    have pos: "0 \<le> NET_POLL_INTERVAL" by (simp add: NET_POLL_INTERVAL_def)
    with "1.prems"
    have later: "\<forall>t. now + NET_POLL_INTERVAL \<le> t \<and> t < deadline \<longrightarrow> nid t = 0 \<or> nid t = prev"
      by auto
    from "1.IH" [OF True refl same later] eq pos show ?thesis by auto
  qed
qed

lemma switch_done_fields:
  "switched (switch_done w i ps prev st) = True"
  "promptsLeft (switch_done w i ps prev st) = promptsLeft st - 1"
  "switching (switch_done w i ps prev st) = False"
  "limit (pool (switch_done w i ps prev st)) = CONC_AFTER"
  "pausedMs (switch_done w i ps prev st) =
     pausedMs st + (snd (waitForDefaultNetChange (netId_at w) prev NET_POLL_TIMEOUT ps) - ps)"
  "stage (switch_done w i ps prev st) i = Settled"
  "returned (switch_done w i ps prev st) = returned st"
  "perFile (switch_done w i ps prev st) = perFile st"
  by (simp_all add: switch_done_def Let_def settle_def setLimit_def pump_limit CONC_AFTER_def)

lemma settle_fields:
  "speeds (settle i st) = speeds st" "detector (settle i st) = detector st"
  by (simp_all add: settle_def)

lemma drain_tick_fields:
  "speeds (drain_tick w i now st) = speeds st" "detector (drain_tick w i now st) = detector st"
  by (simp_all add: drain_tick_def Let_def)

lemma boostShort_fields:
  "speeds (boostShort d now st) = speeds st" "detector (boostShort d now st) = detector st"
  by (simp_all add: boostShort_def)

lemma on_success_speeds:
  "speeds (on_success mode w i rr t now st) = speeds st @ [kbps (sizeB rr) t]"
  by (simp add: on_success_def Let_def settle_fields drain_tick_fields boostShort_fields)

lemma on_success_detector:
  "detector (on_success mode w i rr t now st) =
     (if mode = AUTO_SWITCH \<and> \<not> switched st \<and> \<not> switching st \<and> promptsLeft st > 0
      then snd (feed (detector st) (Some (kbps (sizeB rr) t)) True)
      else detector st)"
  by (simp add: on_success_def Let_def settle_fields drain_tick_fields boostShort_fields)

lemma build_urls_none: "count \<le> 0 \<Longrightarrow> build_urls baseUrl count = []"
  by (simp add: build_urls_def)

lemma start_batch_empty:
  assumes "count \<le> 0"
  shows "start_batch baseUrl count dir now fs =
     \<lparr> urls = [], filesDir = dir, wallStart = now, perFile = [],
       pool = new_pool CONC_BEFORE, detector = new_detector default_params,
       fastUntil = 0, totalBytes = 0, pausedMs = 0, speeds = [],
       promptsLeft = MAX_PROMPTS, switched = False, switching = False,
       weakDetectIndex = - 1, switchTriggerTs = 0,
       files = fs, stage = (\<lambda>i. Fetch), idleResolved = True, returned = None \<rparr>"
  using assms
  by (simp add: start_batch_def build_urls_none Let_def idle_tick_def idle_def new_pool_def)

lemma step_unknown_mode:
  "mode \<noteq> AUTO_SWITCH \<Longrightarrow> step mode w e st = step WIFI_ONLY w e st"
proof (cases e)
  case (Downloaded i t now)
  assume "mode \<noteq> AUTO_SWITCH"
  moreover have "WIFI_ONLY \<noteq> AUTO_SWITCH" by (simp add: WIFI_ONLY_def AUTO_SWITCH_def)
  ultimately have eq: "\<And>rr s. on_success mode w i rr t now s = on_success WIFI_ONLY w i rr t now s"
    by (simp add: on_success_def)
  from Downloaded show ?thesis by (simp add: eq Let_def split: option.splits sum.splits prod.splits)
qed simp_all

lemma run_events_append:
  "run_events mode w (xs @ ys) st =
     (case run_events mode w xs st of None \<Rightarrow> None | Some s \<Rightarrow> run_events mode w ys s)"
  by (induction xs arbitrary: st) (auto split: option.splits)

lemma steady_wait:
  "waitForDefaultNetChange (netId_at steady_world) 7 NET_POLL_TIMEOUT 4000 = (False, 124000)"
  by code_simp

lemma second_run_view:
  "map_option migration_view
     (runBatch ''http://h'' 10 AUTO_SWITCH ''/d'' steady_world 0 complete_files second_run)
     = Some (Draining, False, 1, 0, SwitchWait 4000 7)"
  by code_simp

lemma fold_enqueue_fields:
  "urls (fold enqueue xs st) = urls st" "filesDir (fold enqueue xs st) = filesDir st"
  "files (fold enqueue xs st) = files st" "stage (fold enqueue xs st) = stage st"
  "switched (fold enqueue xs st) = switched st" "switching (fold enqueue xs st) = switching st"
  "promptsLeft (fold enqueue xs st) = promptsLeft st" "speeds (fold enqueue xs st) = speeds st"
  "detector (fold enqueue xs st) = detector st"
  by (induction xs arbitrary: st) (simp_all add: enqueue_def)

lemma start_batch_fields:
  "urls (start_batch b c d n fs) = build_urls b c" "filesDir (start_batch b c d n fs) = d"
  "files (start_batch b c d n fs) = fs" "stage (start_batch b c d n fs) = (\<lambda>i. Fetch)"
  "switched (start_batch b c d n fs) = False" "switching (start_batch b c d n fs) = False"
  "promptsLeft (start_batch b c d n fs) = MAX_PROMPTS" "speeds (start_batch b c d n fs) = []"
  "detector (start_batch b c d n fs) = new_detector default_params"
  by (simp_all add: start_batch_def Let_def idle_tick_def fold_enqueue_fields)

lemma one_url: "build_urls ''http://h'' 1 = [''http://h/img_001.jpg'']"
  by code_simp

lemma one_url_inflight:
  "inflight (pool (start_batch ''http://h'' 1 ''/d'' 0 Map.empty)) = [0]"
  by code_simp

lemma one_url_name: "basename ''http://h/img_001.jpg'' = ''img_001.jpg''"
  by code_simp

section \<open>PriorityPool: the claims\<close>

text \<open>
  Claim C10. For every integer \<open>n\<close>, the constructor and \<open>setLimit\<close> raise no error (the model
  has no error branch, as the source has none) and leave \<open>limit = max(1, n)\<close>; after every
  sequence of operations on a freshly constructed pool the limit is at least 1.
\<close>
theorem C10_limit_at_least_one:
  "limit (new_pool n :: 'a PriorityPool) = max 1 n \<and>
   limit (setLimit n (p :: 'a PriorityPool)) = max 1 n \<and>
   (\<forall>xs p'. run_ops xs (new_pool n :: 'a PriorityPool) = Some p' \<longrightarrow> 1 \<le> limit p')"
proof (intro conjI allI impI)
  show "limit (new_pool n :: 'a PriorityPool) = max 1 n" by (simp add: new_pool_def)
  show "limit (setLimit n p) = max 1 n" by (simp add: setLimit_def pump_limit)
next
  fix xs and p' :: "'a PriorityPool"
  assume "run_ops xs (new_pool n) = Some p'"
  moreover have "1 \<le> limit (new_pool n :: 'a PriorityPool)" by (simp add: new_pool_def)
  ultimately show "1 \<le> limit p'" by (rule run_ops_limit_pos [rotated])
qed

theorem C10_limit_at_least_one_witness:
  "limit (new_pool (-4) :: nat PriorityPool) = 1 \<and>
   limit (setLimit 0 (new_pool 7 :: nat PriorityPool)) = 1 \<and>
   run_ops [Push (5::nat) False, SetLimit (-2), Complete 5] (new_pool 0) =
     Some \<lparr> limit = 1, running = 0, small = [], large = [], pumping = False,
            started = [5], inflight = [] \<rparr> \<and>
   1 \<le> limit \<lparr> limit = 1, running = 0, small = [], large = [], pumping = False,
            started = [5::nat], inflight = [] \<rparr>"
proof -
  have r: "run_ops [Push (5::nat) False, SetLimit (-2), Complete 5] (new_pool 0) =
     Some \<lparr> limit = 1, running = 0, small = [], large = [], pumping = False,
            started = [5], inflight = [] \<rparr>"
    by (simp add: pool_eval)
  from C10_limit_at_least_one [of "-4" "new_pool 7 :: nat PriorityPool"] r
    C10_limit_at_least_one [of 0 "new_pool 7 :: nat PriorityPool"]
  show ?thesis by simp
qed

text \<open>
  Claim C6. Pushing \<open>L1, L2, S1, L3, S2\<close> (L large, S small) into a pool with limit 1 starts
  only \<open>L1\<close>; as each running task completes the next one starts, in the order
  \<open>L1, S1, S2, L2, L3\<close>. In general one dispatch starts the first \<open>limit - running\<close> tasks
  of the small queue followed by the large queue, each queue in FIFO order.
\<close>
theorem C6_start_order:
  "map_option started
     (run_ops [Push ''L1'' False, Push ''L2'' False, Push ''S1'' True, Push ''L3'' False,
               Push ''S2'' True] (new_pool 1)) = Some [''L1''] \<and>
   map_option started
     (run_ops [Push ''L1'' False, Push ''L2'' False, Push ''S1'' True, Push ''L3'' False,
               Push ''S2'' True,
               Complete ''L1'', Complete ''S1'', Complete ''S2'', Complete ''L2'',
               Complete ''L3''] (new_pool 1))
     = Some [''L1'', ''S1'', ''S2'', ''L2'', ''L3''] \<and>
   started (pump_loop p) = started p @ take (nat (limit p - running p)) (small p @ large p)"
proof (intro conjI)
  show "map_option started
     (run_ops [Push ''L1'' False, Push ''L2'' False, Push ''S1'' True, Push ''L3'' False,
               Push ''S2'' True] (new_pool 1)) = Some [''L1'']"
    by (simp add: pool_eval)
  show "map_option started
     (run_ops [Push ''L1'' False, Push ''L2'' False, Push ''S1'' True, Push ''L3'' False,
               Push ''S2'' True,
               Complete ''L1'', Complete ''S1'', Complete ''S2'', Complete ''L2'',
               Complete ''L3''] (new_pool 1))
     = Some [''L1'', ''S1'', ''S2'', ''L2'', ''L3'']"
    by (simp add: pool_eval)
  show "started (pump_loop p) = started p @ take (nat (limit p - running p)) (small p @ large p)"
    by (rule pump_loop_dispatch)
qed

text \<open>
  Claim C4 states \<open>0 \<le> running \<le> limit\<close> at every quiescent point, also after \<open>setLimit\<close>
  lowers the limit while tasks run. With limit 3 and three running tasks, \<open>setLimit(2)\<close>
  leaves \<open>running = 3\<close> and \<open>limit = 2\<close>.
\<close>
theorem C4_counterexample:
  "map_option running
     (run_ops [Push ''a'' False, Push ''b'' False, Push ''c'' False, SetLimit 2] (new_pool 3))
     = Some 3 \<and>
   map_option limit
     (run_ops [Push ''a'' False, Push ''b'' False, Push ''c'' False, SetLimit 2] (new_pool 3))
     = Some 2"
  by (simp add: pool_eval)

text \<open>
  Claim C4, amended. At every quiescent point of a run on a fresh pool, \<open>running\<close> is not
  negative and not above the largest limit that has been in force; \<open>running \<le> limit\<close> holds
  when no \<open>setLimit\<close> of the run lowered the limit below the number of tasks then running.
  A \<open>setLimit\<close> to a limit not above \<open>running\<close> cancels nothing and starts nothing.
\<close>
theorem C4_running_bounds:
  assumes "run_ops xs (new_pool n) = Some (p :: 'a PriorityPool)"
  shows "0 \<le> running p \<and>
         running p \<le> peak_limit (max 1 n) xs \<and>
         (never_undercut xs (new_pool n) \<longrightarrow> running p \<le> limit p) \<and>
         (\<forall>m (q :: 'a PriorityPool). max 1 m \<le> running q \<longrightarrow>
            running (setLimit m q) = running q \<and> started (setLimit m q) = started q)"
proof (intro conjI allI impI)
  have "running p = int (length (inflight p))"
    by (rule run_ops_counts [OF _ assms]) (simp add: new_pool_def)
  then show "0 \<le> running p" by simp
next
  from run_ops_peak [OF assms]
  have "running p \<le> max 0 (peak_limit (max 1 n) xs)" by (simp add: new_pool_def)
  moreover have "max 1 n \<le> peak_limit (max 1 n) xs" by (rule peak_limit_ge)
  ultimately show "running p \<le> peak_limit (max 1 n) xs" by linarith
next
  assume "never_undercut xs (new_pool n)"
  then show "running p \<le> limit p"
    by (rule run_ops_within [OF _ _ assms, rotated]) (simp add: new_pool_def)
next
  fix m and q :: "'a PriorityPool"
  assume "max 1 m \<le> running q"
  then show "running (setLimit m q) = running q"
    by (simp add: setLimit_def pump_running_full)
next
  fix m and q :: "'a PriorityPool"
  assume "max 1 m \<le> running q"
  then show "started (setLimit m q) = started q"
    by (simp add: setLimit_def pump_started_full)
qed

theorem C4_running_bounds_witness:
  "run_ops [Push ''a'' False, Push ''b'' False, Push ''c'' False, SetLimit 2, Complete ''b'',
            Complete ''a'', SetLimit 8] (new_pool 3) =
     Some \<lparr> limit = 8, running = 1, small = [], large = [], pumping = False,
            started = [''a'', ''b'', ''c''], inflight = [''c''] \<rparr> \<and>
   peak_limit (max 1 3) [Push ''a'' False, Push ''b'' False, Push ''c'' False, SetLimit 2,
            Complete ''b'', Complete ''a'', SetLimit 8] = 8 \<and>
   \<not> never_undercut [Push ''a'' False, Push ''b'' False, Push ''c'' False, SetLimit 2,
            Complete ''b'', Complete ''a'', SetLimit 8] (new_pool 3) \<and>
   never_undercut [Push ''a'' False, Push ''b'' True, SetLimit 1] (new_pool 1) \<and>
   run_ops [Push ''a'' False, Push ''b'' True, SetLimit 1] (new_pool 1) =
     Some \<lparr> limit = 1, running = 1, small = [''b''], large = [], pumping = False,
            started = [''a''], inflight = [''a''] \<rparr> \<and>
   running (setLimit 2 \<lparr> limit = 3, running = 3, small = [], large = [''d''], pumping = False,
            started = [''a'', ''b'', ''c''], inflight = [''a'', ''b'', ''c''] \<rparr>) = 3"
proof -
  let ?xs = "[Push ''a'' False, Push ''b'' False, Push ''c'' False, SetLimit 2, Complete ''b'',
            Complete ''a'', SetLimit 8]"
  let ?ys = "[Push ''a'' False, Push ''b'' True, SetLimit 1]"
  let ?q = "\<lparr> limit = 3, running = 3, small = [], large = [''d''], pumping = False,
            started = [''a'', ''b'', ''c''], inflight = [''a'', ''b'', ''c''] \<rparr>"
  have 1: "run_ops ?xs (new_pool 3) =
     Some \<lparr> limit = 8, running = 1, small = [], large = [], pumping = False,
            started = [''a'', ''b'', ''c''], inflight = [''c''] \<rparr>"
    by (simp add: pool_eval)
  have 2: "run_ops ?ys (new_pool 1) =
     Some \<lparr> limit = 1, running = 1, small = [''b''], large = [], pumping = False,
            started = [''a''], inflight = [''a''] \<rparr>"
    by (simp add: pool_eval)
  have 3: "never_undercut ?ys (new_pool 1)" by (simp add: pool_eval)
  have 4: "\<not> never_undercut ?xs (new_pool 3)" by (simp add: pool_eval)
  have 5: "peak_limit (max 1 3) ?xs = 8" by simp
  from C4_running_bounds [OF 1] have "0 \<le> (1::int) \<and> (1::int) \<le> 8" by simp
  from C4_running_bounds [OF 2] 3 have "(1::int) \<le> 1" by simp
  from C4_running_bounds [OF 1, THEN conjunct2, THEN conjunct2, THEN conjunct2, rule_format, of 2 ?q]
  have "running (setLimit 2 ?q) = 3"
    by simp
  with 1 2 3 4 5 show ?thesis by simp
qed

section \<open>The small-file heuristic: the claim\<close>

text \<open>
  Claim C9 states that a URL is tagged small iff its basename matches the rule, so that
  substrings outside the basename do not count. \<open>isSmallByName\<close> tests the whole URL: with
  a host name \<open>my_server\<close> the URL contains \<open>_s\<close> and is tagged small, though its basename
  \<open>img_100.jpg\<close> matches no part of the rule.
\<close>
theorem C9_counterexample:
  "isSmallByName ''http://my_server/images/img_100.jpg'' \<and>
   basename ''http://my_server/images/img_100.jpg'' = ''img_100.jpg'' \<and>
   \<not> spec_small_basename ''http://my_server/images/img_100.jpg''"
  by code_simp

text \<open>
  Claim C9, amended. \<open>enqueue\<close> pushes the task of a URL with the tag \<open>isSmallByName\<close>
  gives the URL, and a URL is tagged small iff the whole lower-cased URL (host and
  directories included) contains \<open>thumb\<close> or \<open>_s\<close> (which covers \<open>_small\<close>), or ends in
  \<open>_128.jpg\<close>, or ends in \<open>img_DDD.jpg\<close> with three decimal digits \<open>DDD \<le> 16\<close>; every other
  URL is tagged large.
\<close>
theorem C9_whole_url:
  "pool (enqueue i st) = push i (isSmallByName (urls st ! i)) (pool st) \<and>
   (isSmallByName u \<longleftrightarrow>
     (let n = toLowerCase u in
      sublist ''thumb'' n \<or> sublist ''_s'' n \<or> suffix ''_128.jpg'' n \<or>
      (\<exists>p d. n = p @ ''img_'' @ d @ ''.jpg'' \<and> length d = 3 \<and> list_all isDigit d \<and>
             Number_digits d \<le> 16)))"
proof -
  define n where "n = toLowerCase u"
  have m: "(case match_img n of
              Some m1 \<Rightarrow> (let idx = Number_digits m1 in if idx \<le> 16 then True else False)
            | None \<Rightarrow> False) \<longleftrightarrow>
           (\<exists>p d. n = p @ ''img_'' @ d @ ''.jpg'' \<and> length d = 3 \<and> list_all isDigit d \<and>
             Number_digits d \<le> 16)" (is "?L \<longleftrightarrow> ?R")
  proof
    assume ?L
    then obtain d where d: "match_img n = Some d" and le: "Number_digits d \<le> 16"
      by (auto simp: Let_def split: option.splits if_splits)
    from d [unfolded match_img_iff] le show ?R by blast
  next
    assume ?R
    then obtain p d where "n = p @ ''img_'' @ d @ ''.jpg''" "length d = 3" "list_all isDigit d"
      and le: "Number_digits d \<le> 16" by blast
    then have "match_img n = Some d" unfolding match_img_iff by blast
    with le show ?L by simp
  qed
  have "isSmallByName u \<longleftrightarrow>
        (sublist ''thumb'' n \<or> sublist ''_s'' n \<or> sublist ''_small'' n \<or>
         suffix ''_128.jpg'' n) \<or>
        (case match_img n of
              Some m1 \<Rightarrow> (let idx = Number_digits m1 in if idx \<le> 16 then True else False)
            | None \<Rightarrow> False)"
    unfolding isSmallByName_def n_def [symmetric] Let_def includes_sublist endsWith_suffix
    by (simp only: if_True if_False split: if_splits) auto
  also have "\<dots> \<longleftrightarrow> (sublist ''thumb'' n \<or> sublist ''_s'' n \<or> suffix ''_128.jpg'' n) \<or>
        (\<exists>p d. n = p @ ''img_'' @ d @ ''.jpg'' \<and> length d = 3 \<and> list_all isDigit d \<and>
             Number_digits d \<le> 16)"
    unfolding m using sublist_small_s by blast
  finally have "isSmallByName u \<longleftrightarrow>
     (let n = toLowerCase u in
      sublist ''thumb'' n \<or> sublist ''_s'' n \<or> suffix ''_128.jpg'' n \<or>
      (\<exists>p d. n = p @ ''img_'' @ d @ ''.jpg'' \<and> length d = 3 \<and> list_all isDigit d \<and>
             Number_digits d \<le> 16))"
    unfolding n_def Let_def by blast
  moreover have "pool (enqueue i st) = push i (isSmallByName (urls st ! i)) (pool st)"
    by (simp add: enqueue_def)
  ultimately show ?thesis by blast
qed

section \<open>The detector: the claim\<close>

text \<open>
  Claim C7 states that every \<open>feed\<close> call made while the history length is below
  \<open>warmupMin\<close> returns \<open>isWeak = false\<close>. \<open>feed\<close> appends the sample before it tests
  \<open>hist.length >= max(3, warmupMin)\<close>: with the default parameters, after nine samples of
  speed 0 the history length is 9, below \<open>warmupMin = 10\<close>, and the tenth call returns
  \<open>isWeak = true\<close>.
\<close>
theorem C7_counterexample:
  "real (length (hist (feed_state (new_detector default_params) (replicate 9 (Some 0, True)))))
     < warmupMin (cfg (feed_state (new_detector default_params) (replicate 9 (Some 0, True)))) \<and>
   isWeak (fst (feed (feed_state (new_detector default_params) (replicate 9 (Some 0, True)))
                  (Some 0) True))"
  by code_simp


text \<open>
  Claim C7, amended. On a fresh detector, every \<open>feed\<close> call after which the history
  length (the sample just fed included) is below \<open>max(3, warmupMin)\<close> returns
  \<open>isWeak = false\<close>, whatever the samples and ok flags: the call number \<open>i + 1\<close> of a sequence
  returns false when \<open>i + 1 < max(3, warmupMin)\<close>.
\<close>
theorem C7_warmup:
  assumes "i < length xs"
    and "real (i + 1) < max 3 (warmupMin params)"
  shows "\<not> isWeak (feed_all (new_detector params) xs ! i)"
proof
  assume "isWeak (feed_all (new_detector params) xs ! i)"
  then have "isWeak (fst (feed (feed_state (new_detector params) (take i xs))
                            (fst (xs ! i)) (snd (xs ! i))))"
    using assms(1) by (simp add: feed_all_nth)
  from feed_isWeak_enough [OF this] assms(1)
  have "max 3 (warmupMin params) \<le> real (i + 1)"
    by (simp add: feed_state_cfg feed_state_hist_length new_detector_def)
  then have "\<not> real (i + 1) < max 3 (warmupMin params)" by (simp only: not_less)
  with assms(2) show False by blast
qed

theorem C7_warmup_witness:
  "(8::nat) < length (replicate 10 (Some (0::real), True)) \<and>
   real (8 + 1) < max 3 (warmupMin default_params) \<and>
   \<not> isWeak (feed_all (new_detector default_params) (replicate 10 (Some 0, True)) ! 8)"
proof -
  have 1: "(8::nat) < length (replicate 10 (Some (0::real), True))" by simp
  have 2: "real (8 + 1) < max 3 (warmupMin default_params)" by (simp add: default_params_def)
  from C7_warmup [OF 1 2] 1 2 show ?thesis by blast
qed

section \<open>The resumable transfer: the claims\<close>

text \<open>
  Claim C1: when a Range GET returns status 200 and a non-empty prefix of the destination
  existed at entry, the destination afterwards holds the full body exactly once.
  The code at such an input: the destination holds the prefix \<open>HE\<close>, the server announces
  ranges and a length of 5 but answers the range request with 200 and the whole object
  \<open>HELLO\<close>. \<open>downloadRangeAppend\<close> has appended the body before \<open>downloadWithResume\<close> looks at
  the status, so the destination ends as \<open>HEHELLO\<close>.
\<close>
theorem C1_range_ignored_concatenates:
  "downloadWithResume (range_ignoring_server ''HELLO'' 1) ''img_001.jpg''
       [''img_001.jpg'' \<mapsto> ''HE''] =
     Some (Inr \<lparr> elapsed = 1, sizeB = 5, usedRange = True, retried = True \<rparr>,
           [''img_001.jpg'' \<mapsto> ''HEHELLO''])"
  using range_ignored_appends [where nw = "range_ignoring_server ''HELLO'' 1"
      and h = "\<lparr> acceptRanges = True, contentLength = Some 5 \<rparr>"
      and fs = "[''img_001.jpg'' \<mapsto> ''HE'']" and dst = "''img_001.jpg''" and pre = "''HE''"
      and r = "\<lparr> status = 200, body = ''HELLO'', seconds = 1 \<rparr>"]
  by (simp add: range_ignoring_server_def ignoring_range_def always_writable_def)

text \<open>
  Claim C5 states that the second call returns \<open>retried = true\<close>. For an object of length 0
  the first call succeeds fully (the destination has the announced length, 0) and leaves the
  file system as it was, so the second call is this same call: it returns \<open>retried = false\<close>.
\<close>
theorem C5_counterexample:
  "head_reply (honest_server [] 1) = Some \<lparr> acceptRanges = True, contentLength = Some 0 \<rparr> \<and>
   downloadWithResume (honest_server [] 1) ''img_001.jpg'' Map.empty =
     Some (Inr \<lparr> elapsed = 0, sizeB = 0, usedRange = True, retried = False \<rparr>, Map.empty) \<and>
   fileSize Map.empty ''img_001.jpg'' = 0"
  using honest_first_call [where fs = Map.empty and dst = "''img_001.jpg''" and b = "[]" and t = 1]
  by (simp add: honest_server_def fileSize_def content_def)

text \<open>
  Claim C5, amended. If a first call against a server that announces ranges and a content
  length returns a result and leaves the destination with exactly that length, a second call
  returns without any Range GET: the file system is unchanged, \<open>sizeB = 0\<close>, \<open>elapsed = 0\<close>,
  \<open>usedRange = true\<close>, and \<open>retried\<close> is true exactly when the object is not empty.
\<close>
theorem C5_second_call:
  assumes "head_reply nw = Some h" and "acceptRanges h" and "contentLength h = Some l"
    and "downloadWithResume nw dst fs0 = Some (Inr r1, fs1)"
    and "fileSize fs1 dst = l"
  shows "downloadWithResume nw dst fs1 =
           Some (Inr \<lparr> elapsed = 0, sizeB = 0, usedRange = True, retried = (0 < l) \<rparr>, fs1)"
  using assms(1,2,3,5) by (rule second_call_noop)

theorem C5_second_call_witness:
  "head_reply (honest_server ''HELLO'' 1) = Some \<lparr> acceptRanges = True, contentLength = Some 5 \<rparr> \<and>
   downloadWithResume (honest_server ''HELLO'' 1) ''img_001.jpg'' [''img_001.jpg'' \<mapsto> ''HE''] =
     Some (Inr \<lparr> elapsed = 1, sizeB = 3, usedRange = True, retried = True \<rparr>,
           [''img_001.jpg'' \<mapsto> ''HELLO'']) \<and>
   fileSize [''img_001.jpg'' \<mapsto> ''HELLO''] ''img_001.jpg'' = 5 \<and>
   downloadWithResume (honest_server ''HELLO'' 1) ''img_001.jpg'' [''img_001.jpg'' \<mapsto> ''HELLO''] =
     Some (Inr \<lparr> elapsed = 0, sizeB = 0, usedRange = True, retried = True \<rparr>,
           [''img_001.jpg'' \<mapsto> ''HELLO''])"
proof -
  let ?nw = "honest_server ''HELLO'' 1"
  let ?h = "\<lparr> acceptRanges = True, contentLength = Some 5 \<rparr>"
  have 1: "head_reply ?nw = Some ?h" by (simp add: honest_server_def)
  have 2: "acceptRanges ?h" by simp
  have 3: "contentLength ?h = Some 5" by simp
  have 4: "downloadWithResume ?nw ''img_001.jpg'' [''img_001.jpg'' \<mapsto> ''HE''] =
     Some (Inr \<lparr> elapsed = 1, sizeB = 3, usedRange = True, retried = True \<rparr>,
           [''img_001.jpg'' \<mapsto> ''HELLO''])"
    using honest_first_call [where fs = "[''img_001.jpg'' \<mapsto> ''HE'']"
        and dst = "''img_001.jpg''" and b = "''HELLO''" and t = 1]
    by (simp add: fileSize_def content_def)
  have 5: "fileSize [''img_001.jpg'' \<mapsto> ''HELLO''] ''img_001.jpg'' = 5"
    by (simp add: fileSize_def)
  from C5_second_call [OF 1 2 3 4 5] 1 4 5 show ?thesis by simp
qed

section \<open>The orchestrator: the claims\<close>

text \<open>
  Claim C2 states that when the poll of the migration sees no change of the default network
  within 120 s, the migration state remains Draining: \<open>switched\<close> is not set and
  \<open>promptsLeft\<close> is not decremented. In the second run of a finished batch of ten files the
  tenth sample makes the detector report a weak link and the migration is entered (state
  Draining, \<open>promptsLeft = 1\<close>, task 9 waiting for the switch with \<open>prevId = 7\<close>). The network
  keeps the id 7, the poll times out, and the task goes on: the state is Switched,
  \<open>switched\<close> is set, \<open>promptsLeft\<close> is 0 and \<open>pausedMs\<close> is 120000.
\<close>
theorem C2_counterexample:
  "map_option migration_view
     (runBatch ''http://h'' 10 AUTO_SWITCH ''/d'' steady_world 0 complete_files second_run)
     = Some (Draining, False, 1, 0, SwitchWait 4000 7) \<and>
   fst (waitForDefaultNetChange (netId_at steady_world) 7 NET_POLL_TIMEOUT 4000) = False \<and>
   map_option migration_view
     (runBatch ''http://h'' 10 AUTO_SWITCH ''/d'' steady_world 0 complete_files
        (second_run @ [SwitchDone 9]))
     = Some (Switched, True, 0, 120000, Settled)"
proof -
  from second_run_view obtain s where
    s: "runBatch ''http://h'' 10 AUTO_SWITCH ''/d'' steady_world 0 complete_files second_run = Some s"
    and v: "migration_view s = (Draining, False, 1, 0, SwitchWait 4000 7)"
    by auto
  from v have st: "stage s 9 = SwitchWait 4000 7" and pl: "promptsLeft s = 1"
    and pm: "pausedMs s = 0"
    by (simp_all add: migration_view_def)
  have "runBatch ''http://h'' 10 AUTO_SWITCH ''/d'' steady_world 0 complete_files
          (second_run @ [SwitchDone 9]) = Some (switch_done steady_world 9 4000 7 s)"
    using s st by (simp add: runBatch_def run_events_append migrationStep_def)
  moreover have "migration_view (switch_done steady_world 9 4000 7 s) =
                   (Switched, True, 0, 120000, Settled)"
    using pl pm by (simp add: migration_view_def migrationState_def switch_done_fields steady_wait)
  ultimately show ?thesis using second_run_view steady_wait by simp
qed

text \<open>
  Claim C2, amended. When the poll of the migration sees no change of the default network
  within the 120 s cap (\<open>waitForDefaultNetChange\<close> returns false), the batch is not aborted:
  the task goes on as it does after a change. It adds the wait, at least 120 s, to
  \<open>pausedMs\<close>, sets \<open>switched\<close> (the state is Switched), decrements \<open>promptsLeft\<close>, raises
  the pool limit to \<open>CONC_AFTER\<close>, clears \<open>switching\<close> and ends; nothing is returned or
  recorded for a file by this step.
\<close>
theorem C2_timeout_advances:
  assumes "stage st i = SwitchWait pauseStart prevId"
    and "\<forall>t. pauseStart \<le> t \<and> t < pauseStart + NET_POLL_TIMEOUT \<longrightarrow>
             netId_at w t = 0 \<or> netId_at w t = prevId"
  shows "fst (waitForDefaultNetChange (netId_at w) prevId NET_POLL_TIMEOUT pauseStart) = False \<and>
         (\<exists>st'. step mode w (SwitchDone i) st = Some st' \<and>
                migrationState st' = Switched \<and> switched st' \<and>
                promptsLeft st' = promptsLeft st - 1 \<and> \<not> switching st' \<and>
                limit (pool st') = CONC_AFTER \<and>
                pausedMs st + NET_POLL_TIMEOUT \<le> pausedMs st' \<and>
                stage st' i = Settled \<and> returned st' = returned st \<and>
                perFile st' = perFile st)"
proof -
  let ?r = "waitForDefaultNetChange (netId_at w) prevId NET_POLL_TIMEOUT pauseStart"
  from wait_poll_no_change [OF assms(2)]
  have f: "fst ?r = False" and d: "pauseStart + NET_POLL_TIMEOUT \<le> snd ?r"
    by (simp_all add: waitForDefaultNetChange_def)
  have "step mode w (SwitchDone i) st = Some (switch_done w i pauseStart prevId st)"
    using assms(1) by (simp add: migrationStep_def)
  moreover have "pausedMs st + NET_POLL_TIMEOUT \<le> pausedMs (switch_done w i pauseStart prevId st)"
    using d by (simp add: switch_done_fields)
  ultimately show ?thesis
    using f by (simp add: switch_done_fields migrationState_def)
qed

theorem C2_timeout_advances_witness:
  "\<exists>st. runBatch ''http://h'' 10 AUTO_SWITCH ''/d'' steady_world 0 complete_files second_run = Some st \<and>
        stage st 9 = SwitchWait 4000 7 \<and> promptsLeft st = 1 \<and>
        (\<forall>t. 4000 \<le> t \<and> t < 4000 + NET_POLL_TIMEOUT \<longrightarrow>
             netId_at steady_world t = 0 \<or> netId_at steady_world t = 7) \<and>
        fst (waitForDefaultNetChange (netId_at steady_world) 7 NET_POLL_TIMEOUT 4000) = False \<and>
        (\<exists>st'. step AUTO_SWITCH steady_world (SwitchDone 9) st = Some st' \<and>
               migrationState st' = Switched \<and> promptsLeft st' = 0)"
proof -
  from second_run_view obtain s where
    s: "runBatch ''http://h'' 10 AUTO_SWITCH ''/d'' steady_world 0 complete_files second_run = Some s"
    and v: "migration_view s = (Draining, False, 1, 0, SwitchWait 4000 7)"
    by auto
  from v have st: "stage s 9 = SwitchWait 4000 7" and pl: "promptsLeft s = 1"
    by (simp_all add: migration_view_def)
  have nc: "\<forall>t. 4000 \<le> t \<and> t < 4000 + NET_POLL_TIMEOUT \<longrightarrow>
                 netId_at steady_world t = 0 \<or> netId_at steady_world t = 7"
    by (simp add: steady_world_def steady_net_def)
  from C2_timeout_advances [OF st nc, of AUTO_SWITCH] s st pl nc show ?thesis
    by auto
qed

text \<open>
  Claim C3 states that in either mode, before or after the migration, the speed of every
  successful transfer is fed to the detector. In mode \<open>WIFI_ONLY\<close> a transfer of 5 bytes in
  one second succeeds and its speed is recorded in \<open>speeds\<close>, but the detector is still in
  its initial state: \<open>feed\<close> was not called.
\<close>
theorem C3_counterexample:
  "map_option perFile
     (runBatch ''http://h'' 1 WIFI_ONLY ''/d'' steady_world 0 Map.empty [Downloaded 0 1 1000])
     = Some [Some \<lparr> pf_url = ''http://h/img_001.jpg'', pf_t = 1, pf_bytes = 5,
                    pf_path = Some wifi, pf_used_range = Some True,
                    pf_retried = Some False \<rparr>] \<and>
   map_option speeds
     (runBatch ''http://h'' 1 WIFI_ONLY ''/d'' steady_world 0 Map.empty [Downloaded 0 1 1000])
     = Some [kbps 5 1] \<and>
   map_option detector
     (runBatch ''http://h'' 1 WIFI_ONLY ''/d'' steady_world 0 Map.empty [Downloaded 0 1 1000])
     = Some (new_detector default_params)"
  by code_simp

text \<open>
  Claim C3, amended. For every step of a batch in which the transfer of a running task
  returns a result \<open>rr\<close>, \<open>t\<close> seconds after it began, the task computes
  \<open>speed = bytes/1024 / max(0.001, elapsed seconds)\<close> and appends it to \<open>speeds\<close>. It feeds
  \<open>(speed, _, ok = true)\<close> to the detector exactly when the mode is \<open>AUTO_SWITCH\<close>, the
  batch has not switched and is not switching, and \<open>promptsLeft > 0\<close>; otherwise the detector
  is left as it is.
\<close>
theorem C3_feed_guard:
  assumes "step mode w (Downloaded i t now) st = Some st'"
    and "downloadWithResume (server w (urls st ! i))
           (filesDir st @ ''/'' @ basename (urls st ! i)) (files st) = Some (Inr rr, fs')"
  shows "speeds st' = speeds st @ [kbps (sizeB rr) t] \<and>
         detector st' =
           (if mode = AUTO_SWITCH \<and> \<not> switched st \<and> \<not> switching st \<and> promptsLeft st > 0
            then snd (feed (detector st) (Some (kbps (sizeB rr) t)) True)
            else detector st)"
proof -
  from assms have "st' = on_success mode w i rr t now (st\<lparr>files := fs'\<rparr>)"
    by (simp add: Let_def split: if_splits)
  then show ?thesis by (simp add: on_success_speeds on_success_detector)
qed

theorem C3_feed_guard_witness:
  "step AUTO_SWITCH steady_world (Downloaded 0 1 1000)
       (start_batch ''http://h'' 1 ''/d'' 0 Map.empty) =
     Some (on_success AUTO_SWITCH steady_world 0
             \<lparr> elapsed = 1, sizeB = 5, usedRange = True, retried = False \<rparr> 1 1000
             ((start_batch ''http://h'' 1 ''/d'' 0 Map.empty)
                \<lparr>files := [''/d/img_001.jpg'' \<mapsto> ''HELLO'']\<rparr>)) \<and>
   speeds (on_success AUTO_SWITCH steady_world 0
             \<lparr> elapsed = 1, sizeB = 5, usedRange = True, retried = False \<rparr> 1 1000
             ((start_batch ''http://h'' 1 ''/d'' 0 Map.empty)
                \<lparr>files := [''/d/img_001.jpg'' \<mapsto> ''HELLO'']\<rparr>)) = [kbps 5 1] \<and>
   detector (on_success AUTO_SWITCH steady_world 0
             \<lparr> elapsed = 1, sizeB = 5, usedRange = True, retried = False \<rparr> 1 1000
             ((start_batch ''http://h'' 1 ''/d'' 0 Map.empty)
                \<lparr>files := [''/d/img_001.jpg'' \<mapsto> ''HELLO'']\<rparr>)) =
     snd (feed (new_detector default_params) (Some (kbps 5 1)) True)"
proof -
  let ?S = "start_batch ''http://h'' 1 ''/d'' 0 Map.empty"
  let ?rr = "\<lparr> elapsed = 1, sizeB = 5, usedRange = True, retried = False \<rparr>"
  let ?F = "[''/d/img_001.jpg'' \<mapsto> ''HELLO'']"
  have dl: "downloadWithResume (server steady_world (urls ?S ! 0))
           (filesDir ?S @ ''/'' @ basename (urls ?S ! 0)) (files ?S) = Some (Inr ?rr, ?F)"
    using honest_first_call [where fs = Map.empty and dst = "''/d/img_001.jpg''"
        and b = "''HELLO''" and t = 1]
    by (simp add: start_batch_fields one_url one_url_name steady_world_def hello_server_def
          content_def fileSize_def)
  have st: "step AUTO_SWITCH steady_world (Downloaded 0 1 1000) ?S =
              Some (on_success AUTO_SWITCH steady_world 0 ?rr 1 1000 (?S\<lparr>files := ?F\<rparr>))"
    using dl by (simp add: one_url_inflight start_batch_fields Let_def)
  from C3_feed_guard [OF st dl] st show ?thesis
    by (simp add: start_batch_fields MAX_PROMPTS_def)
qed

text \<open>
  Claim C8 states that a call with \<open>count \<le> 0\<close> or an unknown mode fails at entry.
  \<open>runBatch\<close> has no check of its arguments: with \<open>count = 0\<close> and the mode string
  \<open>BOGUS\<close> it builds no URL, finds the pool idle and returns an empty result.
\<close>
theorem C8_counterexample:
  "map_option returned
     (runBatch ''http://h/images'' 0 ''BOGUS'' ''/data'' steady_world 0 Map.empty [Resumed 0])
     = Some (Some \<lparr> totalTime = 0, r_totalBytes = 0, r_perFile = [], wallTime = 0,
                    r_pausedMs = 0 \<rparr>)"
  by (simp add: runBatch_def start_batch_empty finish_def Let_def)

text \<open>
  Claim C8, amended. \<open>runBatch\<close> does not validate its configuration. With \<open>count \<le> 0\<close> it
  starts no task and, as soon as it resumes from \<open>pool.idle()\<close>, returns a normal result
  with an empty \<open>perFile\<close>, \<open>totalBytes = 0\<close> and \<open>pausedMs = 0\<close>, whatever the mode. A mode
  other than \<open>AUTO_SWITCH\<close>, an unknown string included, makes every step of the batch the
  step of \<open>WIFI_ONLY\<close>.
\<close>
theorem C8_no_validation:
  assumes "count \<le> 0"
  shows "map_option returned (runBatch baseUrl count mode dir w now fs [Resumed now']) =
           Some (Some \<lparr> totalTime = max 0 (real_of_int (now' - now) / 1000), r_totalBytes = 0,
                          r_perFile = [], wallTime = real_of_int (now' - now) / 1000,
                          r_pausedMs = 0 \<rparr>) \<and>
         (mode \<noteq> AUTO_SWITCH \<longrightarrow> (\<forall>e st. step mode w e st = step WIFI_ONLY w e st))"
  using assms
  by (simp add: runBatch_def start_batch_empty finish_def Let_def step_unknown_mode)

theorem C8_no_validation_witness:
  "(- 3 :: int) \<le> 0 \<and>
   map_option returned
     (runBatch ''http://h/images/'' (- 3) ''BOGUS'' ''/data'' steady_world 1000 Map.empty
        [Resumed 1002])
     = Some (Some \<lparr> totalTime = 2 / 1000, r_totalBytes = 0, r_perFile = [],
                    wallTime = 2 / 1000, r_pausedMs = 0 \<rparr>) \<and>
   ''BOGUS'' \<noteq> AUTO_SWITCH \<and>
   step ''BOGUS'' steady_world IdleTick (start_batch ''http://h'' 1 ''/d'' 0 Map.empty) =
     step WIFI_ONLY steady_world IdleTick (start_batch ''http://h'' 1 ''/d'' 0 Map.empty)"
proof -
  have 1: "(- 3 :: int) \<le> 0" by simp
  have 2: "''BOGUS'' \<noteq> AUTO_SWITCH" by (simp add: AUTO_SWITCH_def)
  from C8_no_validation [OF 1, of "''http://h/images/''" "''BOGUS''" "''/data''" steady_world
      1000 Map.empty 1002] 1 2
  show ?thesis by simp
qed

end
